theory Spec2Isabelle
  imports Main "HOL-Library.Sublist"
begin

section \<open>Sampling parameter selector\<close>

text \<open>
  \<^verbatim>\<open>PerformanceCollector._determine_sampling_parameters\<close>
  (\<^verbatim>\<open>src/collectors/performance_collector.py\<close>, lines 211-247). Python integers are
  unbounded, so \<open>interval_mins\<close> is an \<^typ>\<open>int\<close>; Python's \<open>//\<close> is floor division,
  which is what \<open>div\<close> on \<^typ>\<open>int\<close> computes. The returned tuple is
  \<open>(samples, interval_description, interval_id)\<close>.
\<close>

definition determine_sampling_parameters :: "int \<Rightarrow> int \<times> string \<times> int" where
  "determine_sampling_parameters interval_mins =
     (if interval_mins \<le> 60 then
        ((interval_mins * 60) div 20, ''20-second real-time'', 20)
      else if interval_mins \<le> 1440 then
        (interval_mins div 5, ''5-minute short-term'', 300)
      else if interval_mins \<le> 10080 then
        (interval_mins div 30, ''30-minute medium-term'', 1800)
      else if interval_mins \<le> 43200 then
        (interval_mins div 120, ''2-hour long-term'', 7200)
      else
        (interval_mins div 1440, ''1-day historical'', 86400))"

text \<open>The three components of the returned tuple.\<close>

definition samples :: "int \<times> string \<times> int \<Rightarrow> int" where
  "samples plan = fst plan"

definition interval_description :: "int \<times> string \<times> int \<Rightarrow> string" where
  "interval_description plan = fst (snd plan)"

definition interval_id :: "int \<times> string \<times> int \<Rightarrow> int" where
  "interval_id plan = snd (snd plan)"

section \<open>Python library operations used by the name-skip check\<close>

text \<open>
  \<^verbatim>\<open>_should_skip_vm\<close> calls four operations of Python's standard library:
  \<^verbatim>\<open>str.replace\<close>, the substring test \<^verbatim>\<open>in\<close>, \<^verbatim>\<open>re.escape\<close> and \<^verbatim>\<open>re.search\<close>.
  They are modelled here from the behaviour Python documents. A Python string is a
  \<^typ>\<open>string\<close>; none of the operations below looks inside a character, so nothing
  depends on a character being a byte rather than a code point.
\<close>

definition backslash :: char where
  "backslash = CHR 0x5C"

definition line_feed :: char where
  "line_feed = CHR 0x0A"

text \<open>
  \<^verbatim>\<open>s.replace(old, new)\<close>: every occurrence of \<open>old\<close>, found from left to right
  without overlap, is replaced by \<open>new\<close>. The counter is the number of characters of
  the occurrence just replaced that are still to be passed over. For an empty \<open>old\<close>
  Python puts \<open>new\<close> before every character and at the end.
\<close>

fun replace_from :: "string \<Rightarrow> string \<Rightarrow> nat \<Rightarrow> string \<Rightarrow> string" where
  "replace_from old new k [] = (if old = [] then new else [])"
| "replace_from old new (Suc k) (c # cs) = replace_from old new k cs"
| "replace_from old new 0 (c # cs) =
     (if old = [] then new @ c # replace_from old new 0 cs
      else if prefix old (c # cs) then new @ replace_from old new (length old - 1) cs
      else c # replace_from old new 0 cs)"

definition str_replace :: "string \<Rightarrow> string \<Rightarrow> string \<Rightarrow> string" where
  "str_replace s old new = replace_from old new 0 s"

text \<open>\<^verbatim>\<open>sub in s\<close> on strings: \<open>sub\<close> occurs in \<open>s\<close> as a contiguous part.\<close>

definition str_in :: "string \<Rightarrow> string \<Rightarrow> bool" where
  "str_in sub s = sublist sub s"

text \<open>
  \<^verbatim>\<open>re.escape\<close> (Python 3.7 and later) puts a backslash before each of the characters
  \<^verbatim>\<open>( ) [ ] { } ? * + - | ^ $ . & ~ #\<close>, backslash, space, tab, line feed, carriage return, vertical tab and
  form feed, and leaves every other character as it is. (Earlier versions escape every
  character that is not alphanumeric; an escaped non-alphanumeric character matches itself
  either way.)
\<close>

definition re_special_chars :: string where
  "re_special_chars =
     ''()[]{}?*+-|^$'' @ [backslash] @ ''.&~# '' @ [CHR 0x09, CHR 0x0A, CHR 0x0D, CHR 0x0B, CHR 0x0C]"

definition re_escape :: "string \<Rightarrow> string" where
  "re_escape pattern =
     concat (map (\<lambda>c. if c \<in> set re_special_chars then [backslash, c] else [c]) pattern)"

text \<open>
  \<^verbatim>\<open>re.search\<close> compiles its first argument and raises \<^verbatim>\<open>re.error\<close> when that fails.
  The model covers the regular expressions made of three kinds of item: an ordinary
  character, which matches itself; a backslash followed by a character that is not an
  ASCII letter or digit, which matches that character; and \<^verbatim>\<open>.*\<close>, which matches any
  run of characters other than line feed (no flag is passed, so the dot excludes the line
  feed). \<open>sre_parse\<close> returns \<open>None\<close> on every other expression: on those Python
  raises \<^verbatim>\<open>re.error\<close> or compiles something this model does not describe, and
  \<open>re_search\<close> reports both as an error. A character followed by one of the repetition
  characters \<^verbatim>\<open>* + ? {\<close> is outside the covered expressions as well.
\<close>

datatype re_error = Re_Error

datatype re_item = Literal char | Any_Star

definition ascii_alnum :: "char \<Rightarrow> bool" where
  "ascii_alnum c = (let n = of_char c :: nat in
      (48 \<le> n \<and> n \<le> 57) \<or> (65 \<le> n \<and> n \<le> 90) \<or> (97 \<le> n \<and> n \<le> 122))"

definition re_metachars :: string where
  "re_metachars = ''.^$*+?{}[]|()'' @ [backslash]"

definition repeat_follows :: "string \<Rightarrow> bool" where
  "repeat_follows s = (case s of [] \<Rightarrow> False | c # _ \<Rightarrow> c \<in> set ''*+?{'')"

fun sre_parse :: "string \<Rightarrow> re_item list option" where
  "sre_parse [] = Some []"
| "sre_parse (c # s) =
     (if c = backslash then
        (case s of
           [] \<Rightarrow> None
         | e # s' \<Rightarrow>
             if ascii_alnum e \<or> repeat_follows s' then None
             else map_option (Cons (Literal e)) (sre_parse s'))
      else if c = CHR ''.'' then
        (case s of
           [] \<Rightarrow> None
         | q # s' \<Rightarrow>
             if q \<noteq> CHR ''*'' \<or> repeat_follows s' then None
             else map_option (Cons Any_Star) (sre_parse s'))
      else if c \<in> set re_metachars \<or> repeat_follows s then None
      else map_option (Cons (Literal c)) (sre_parse s))"

text \<open>
  \<open>match_here r s\<close>: the items \<open>r\<close> match some prefix of \<open>s\<close>. Python tries the
  longest run for \<^verbatim>\<open>.*\<close> first and backtracks; whether a match exists does not depend
  on that order. \<open>search_items\<close> tries every start position, as \<^verbatim>\<open>re.search\<close> does.
\<close>

fun match_here :: "re_item list \<Rightarrow> string \<Rightarrow> bool" where
  "match_here [] s = True"
| "match_here (Literal c # r) s =
     (case s of [] \<Rightarrow> False | d # s' \<Rightarrow> d = c \<and> match_here r s')"
| "match_here (Any_Star # r) s =
     (match_here r s \<or>
      (case s of [] \<Rightarrow> False | d # s' \<Rightarrow> d \<noteq> line_feed \<and> match_here (Any_Star # r) s'))"

fun search_items :: "re_item list \<Rightarrow> string \<Rightarrow> bool" where
  "search_items r [] = match_here r []"
| "search_items r (d # s) = (match_here r (d # s) \<or> search_items r s)"

definition re_search :: "string \<Rightarrow> string \<Rightarrow> re_error + bool" where
  "re_search pattern string =
     (case sre_parse pattern of
        None \<Rightarrow> Inl Re_Error
      | Some r \<Rightarrow> Inr (search_items r string))"

section \<open>VM collector\<close>

text \<open>
  \<^verbatim>\<open>src/collectors/vm_collector.py\<close>. A \<open>vm\<close> holds the attributes of a pyVmomi
  virtual machine object that decide whether its row is exported: \<^verbatim>\<open>vm.name\<close>,
  \<^verbatim>\<open>str(vm.runtime.powerState)\<close>, \<^verbatim>\<open>vm.guest.guestState\<close>, \<^verbatim>\<open>vm.guest.ipAddress\<close> and
  \<^verbatim>\<open>vm.config.uuid\<close>. \<open>None\<close> stands for an attribute that \<^verbatim>\<open>hasattr\<close> does not find
  or whose value is \<^verbatim>\<open>None\<close>. \<open>vm_properties\<close> is the dictionary built by
  \<^verbatim>\<open>get_vm_properties\<close>, with the four of its nineteen keys that the filtering reads;
  \<open>VM_UUID = None\<close> is a dictionary without that key, for which
  \<^verbatim>\<open>vm_properties.get("VM UUID", "")\<close> gives the empty string. The other keys are
  copied from further attributes of the object and are assumed to be readable.
  \<open>vm_collector\<close> is the part of a \<^verbatim>\<open>VMCollector\<close> object that the checks read and
  write.
\<close>

record vm =
  vm_name :: string
  runtime_powerState :: string
  guest_guestState :: "string option"
  guest_ipAddress :: "string option"
  config_uuid :: "string option"

record vm_properties =
  VM :: string
  Powerstate :: string
  Primary_IP_Address :: string
  VM_UUID :: "string option"

record vm_collector =
  seen_uuids :: "string set"
  duplicate_uuids :: "string \<rightharpoonup> string list"
  vm_skip_list :: "string list"

text \<open>
  \<^verbatim>\<open>VMCollector.__init__\<close>: an empty seen-set, an empty duplicates dictionary and the
  skip list loaded from the file.
\<close>

definition new_vm_collector :: "string list \<Rightarrow> vm_collector" where
  "new_vm_collector skip_list =
     \<lparr>seen_uuids = {}, duplicate_uuids = Map.empty, vm_skip_list = skip_list\<rparr>"

text \<open>
  \<^verbatim>\<open>_should_skip_vm\<close>, lines 76-104 (the same code is inlined in
  \<^verbatim>\<open>src/vcexport.py\<close>, lines 1118-1138). The characters tested by
  the \<^verbatim>\<open>any(c in pattern for c in ...)\<close> condition are \<open>regex_special_characters\<close>:
  \<^verbatim>\<open>* ? [ ] ( ) { } | ^ $ +\<close> and backslash.
  The regular-expression search is a parameter, so that the \<^verbatim>\<open>except re.error\<close>
  branch can be stated for any engine; \<open>should_skip_vm\<close> is the function with
  \<open>re_search\<close> in that place.
\<close>

definition regex_special_characters :: string where
  "regex_special_characters = ''*?[](){}|^$+'' @ [backslash]"

fun should_skip_vm_with ::
  "(string \<Rightarrow> string \<Rightarrow> re_error + bool) \<Rightarrow> string list \<Rightarrow> vm \<Rightarrow> bool" where
  "should_skip_vm_with search [] vm = False"
| "should_skip_vm_with search (pattern # rest) vm =
     (if list_ex (\<lambda>c. c \<in> set pattern) regex_special_characters then
        (case search (str_replace (re_escape pattern) [backslash, CHR ''*''] ''.*'') (vm_name vm) of
           Inr found \<Rightarrow>
             if found then True else should_skip_vm_with search rest vm
         | Inl err \<Rightarrow>
             if str_in (str_replace pattern ''*'' []) (vm_name vm) then True
             else should_skip_vm_with search rest vm)
      else if vm_name vm = pattern then True
      else should_skip_vm_with search rest vm)"

definition should_skip_vm :: "string list \<Rightarrow> vm \<Rightarrow> bool" where
  "should_skip_vm skip_list vm = should_skip_vm_with re_search skip_list vm"

text \<open>
  \<^verbatim>\<open>_is_duplicate_uuid\<close>, lines 106-125 (inlined in \<^verbatim>\<open>src/vcexport.py\<close>, lines
  1152-1161). It returns its result together with the collector as the call leaves it. A
  string is truthy in Python when it is not empty.
\<close>

definition is_duplicate_uuid :: "vm_properties \<Rightarrow> vm_collector \<Rightarrow> bool \<times> vm_collector" where
  "is_duplicate_uuid vm_properties self =
     (let uuid = (case VM_UUID vm_properties of None \<Rightarrow> [] | Some u \<Rightarrow> u) in
      if uuid \<noteq> [] \<and> uuid \<in> seen_uuids self then
        (True,
         self\<lparr>duplicate_uuids :=
           (duplicate_uuids self)(uuid \<mapsto>
              (case duplicate_uuids self uuid of None \<Rightarrow> [] | Some names \<Rightarrow> names)
                @ [VM vm_properties])\<rparr>)
      else if uuid \<noteq> [] then
        (False, self\<lparr>seen_uuids := insert uuid (seen_uuids self)\<rparr>)
      else (False, self))"

text \<open>
  \<^verbatim>\<open>get_vm_properties\<close>, lines 127-211: \<open>None\<close> for a machine that is powered off or
  whose guest is not running, otherwise the dictionary.
\<close>

definition get_vm_properties :: "vm \<Rightarrow> vm_properties option" where
  "get_vm_properties vm =
     (if runtime_powerState vm = ''poweredOff'' \<or> guest_guestState vm = Some ''notRunning''
      then None
      else Some \<lparr>VM = vm_name vm,
                 Powerstate = runtime_powerState vm,
                 Primary_IP_Address =
                   (case guest_ipAddress vm of None \<Rightarrow> [] | Some a \<Rightarrow> a),
                 VM_UUID =
                   (case config_uuid vm of None \<Rightarrow> Some [] | Some u \<Rightarrow> Some u)\<rparr>)"

section \<open>The VM processing loop\<close>

text \<open>
  \<^verbatim>\<open>VCenterOrchestrator.collect_vm_data\<close>, \<^verbatim>\<open>src/vcenter_orchestrator.py\<close>, lines
  116-166. \<open>vm_data\<close> is the state the loop changes: the collector and the list
  \<^verbatim>\<open>vm_data["vm_info"]\<close>. The field \<open>kept_vms\<close> is not in the source: it records the
  machine objects whose rows were appended, so that the output of one run can be the input
  of another. \<open>process_vm\<close> is one iteration. Between the duplicate check and the append
  the source skips a machine for which \<^verbatim>\<open>get_vm_network_properties\<close> returns
  \<^verbatim>\<open>None\<close>; that function returns a list on every path (lines 261-311), so the branch
  is never taken and is left out. The other lists of \<^verbatim>\<open>vm_data\<close> are appended to
  together with \<open>vm_info\<close> and are left out too.
\<close>

record vm_data =
  vm_collector :: vm_collector
  vm_info :: "vm_properties list"
  kept_vms :: "vm list"

definition process_vm :: "vm_data \<Rightarrow> vm \<Rightarrow> vm_data" where
  "process_vm st vm =
     (if should_skip_vm (vm_skip_list (vm_collector st)) vm then st
      else
        (case get_vm_properties vm of
           None \<Rightarrow> st
         | Some vm_properties \<Rightarrow>
             if Primary_IP_Address vm_properties = [] then st
             else
               (case is_duplicate_uuid vm_properties (vm_collector st) of
                  (True, self') \<Rightarrow> st\<lparr>vm_collector := self'\<rparr>
                | (False, self') \<Rightarrow>
                    st\<lparr>vm_collector := self',
                       vm_info := vm_info st @ [vm_properties],
                       kept_vms := kept_vms st @ [vm]\<rparr>)))"

definition collect_vm_data :: "vm_collector \<Rightarrow> vm list \<Rightarrow> vm_data" where
  "collect_vm_data self vms_to_process =
     foldl process_vm \<lparr>vm_collector = self, vm_info = [], kept_vms = []\<rparr> vms_to_process"

section \<open>Vocabulary of the specification\<close>

subsection \<open>Sampling tiers\<close>

text \<open>
  The tier, named by its interval in seconds, under the reading that each tier's range of
  window lengths is closed at its lower end and open at its upper end.
\<close>

definition tier_closed_below :: "int \<Rightarrow> int" where
  "tier_closed_below w =
     (if w < 60 then 20 else if w < 1440 then 300 else if w < 10080 then 1800
      else if w < 43200 then 7200 else 86400)"

subsection \<open>Wildcard patterns\<close>

text \<open>
  The regular expression the code builds from a pattern, and the items the pattern stands
  for: \<open>*\<close> is \<^verbatim>\<open>.*\<close>, any other character is itself.
\<close>

definition wildcard_regex :: "string \<Rightarrow> string" where
  "wildcard_regex pattern = str_replace (re_escape pattern) [backslash, CHR ''*''] ''.*''"

definition pattern_items :: "string \<Rightarrow> re_item list" where
  "pattern_items pattern = map (\<lambda>c. if c = CHR ''*'' then Any_Star else Literal c) pattern"

text \<open>
  Wildcard matching in the specification's words. \<open>wildcard_exact spans p t\<close>: the text
  \<open>t\<close> is the pattern \<open>p\<close> with each \<open>*\<close> replaced by some sequence of characters
  that all satisfy \<open>spans\<close>, and every other character kept. \<open>wildcard_matches\<close>: some
  contiguous part of the name is matched in that sense. \<open>pattern_matches\<close>: equality
  for a pattern without special character, wildcard matching otherwise. With
  \<open>any_character\<close> a \<open>*\<close> stands for any sequence; with \<open>not_line_feed\<close> for any
  sequence without a line feed.
\<close>

fun wildcard_exact :: "(char \<Rightarrow> bool) \<Rightarrow> string \<Rightarrow> string \<Rightarrow> bool" where
  "wildcard_exact spans [] t = (t = [])"
| "wildcard_exact spans (c # p) t =
     (if c = CHR ''*'' then
        list_ex (\<lambda>g. list_all spans g \<and> wildcard_exact spans p (drop (length g) t)) (prefixes t)
      else (case t of [] \<Rightarrow> False | d # t' \<Rightarrow> d = c \<and> wildcard_exact spans p t'))"

definition wildcard_matches :: "(char \<Rightarrow> bool) \<Rightarrow> string \<Rightarrow> string \<Rightarrow> bool" where
  "wildcard_matches spans pattern name = list_ex (wildcard_exact spans pattern) (sublists name)"

definition pattern_matches :: "(char \<Rightarrow> bool) \<Rightarrow> string \<Rightarrow> string \<Rightarrow> bool" where
  "pattern_matches spans pattern name =
     (if set pattern \<inter> set regex_special_characters = {} then name = pattern
      else wildcard_matches spans pattern name)"

definition any_character :: "char \<Rightarrow> bool" where
  "any_character c = True"

definition not_line_feed :: "char \<Rightarrow> bool" where
  "not_line_feed c = (c \<noteq> line_feed)"

text \<open>A regular-expression engine that raises a matching error on every call.\<close>

definition failing_search :: "string \<Rightarrow> string \<Rightarrow> re_error + bool" where
  "failing_search pattern string = Inl Re_Error"

subsection \<open>The duplicate ledger\<close>

text \<open>
  The UUID a call of the duplicate check reads. \<open>duplicate_checks\<close> is a run of calls
  against one collector, in order: the results of the calls and the collector after the
  last one. \<open>names_with_uuid u calls\<close> are the names of the calls that carry \<open>u\<close>.
\<close>

definition uuid_value :: "vm_properties \<Rightarrow> string" where
  "uuid_value vm_properties = (case VM_UUID vm_properties of None \<Rightarrow> [] | Some u \<Rightarrow> u)"

definition duplicate_checks ::
  "vm_collector \<Rightarrow> vm_properties list \<Rightarrow> bool list \<times> vm_collector" where
  "duplicate_checks self calls =
     foldl (\<lambda>(results, self') vm_properties.
              case is_duplicate_uuid vm_properties self' of
                (r, self'') \<Rightarrow> (results @ [r], self''))
           ([], self) calls"

definition names_with_uuid :: "string \<Rightarrow> vm_properties list \<Rightarrow> string list" where
  "names_with_uuid u calls = map VM (filter (\<lambda>p. uuid_value p = u) calls)"

text \<open>
  What holds after a run of calls against a fresh ledger: one result per call; the
  seen-set is the non-empty UUIDs of the calls; a call is rejected exactly when its UUID
  is not empty and an earlier call carried it; the list under a UUID is the names that
  carry it, without the first.
\<close>

definition run_facts :: "vm_collector \<Rightarrow> vm_properties list \<Rightarrow> bool" where
  "run_facts self calls \<longleftrightarrow>
     length (fst (duplicate_checks self calls)) = length calls
     \<and> seen_uuids (snd (duplicate_checks self calls)) = uuid_value ` set calls - {[]}
     \<and> (\<forall>i<length calls. fst (duplicate_checks self calls) ! i =
           (uuid_value (calls ! i) \<noteq> [] \<and> (\<exists>j<i. uuid_value (calls ! j) = uuid_value (calls ! i))))
     \<and> (\<forall>u. duplicate_uuids (snd (duplicate_checks self calls)) u =
           (if u \<noteq> [] \<and> 2 \<le> length (names_with_uuid u calls)
            then Some (tl (names_with_uuid u calls)) else None))"

text \<open>
  The ledger invariant, and the order in which a ledger only grows: the seen-set does not
  lose a member and a stored list is only ever extended at its end.
\<close>

definition ledger_invariant :: "vm_collector \<Rightarrow> bool" where
  "ledger_invariant self \<longleftrightarrow>
     dom (duplicate_uuids self) \<subseteq> seen_uuids self \<and> [] \<notin> ran (duplicate_uuids self)"

definition ledger_grows :: "vm_collector \<Rightarrow> vm_collector \<Rightarrow> bool" where
  "ledger_grows self self' \<longleftrightarrow>
     seen_uuids self \<subseteq> seen_uuids self' \<and>
     (\<forall>u names. duplicate_uuids self u = Some names \<longrightarrow>
        (\<exists>names'. duplicate_uuids self' u = Some names' \<and> prefix names names'))"

subsection \<open>The four checks\<close>

text \<open>
  The checks on one machine: not skipped by name, in a running state, with a non-empty
  primary IP address. \<open>clears_all_four skip_list vms i\<close>: the machine at position
  \<open>i\<close> clears these three and, unless its UUID is empty, no earlier machine that clears
  them has the same UUID. \<open>checked_names skip_list u vms\<close> are the names of the machines
  with UUID \<open>u\<close> that reach the duplicate check.
\<close>

definition vm_uuid :: "vm \<Rightarrow> string" where
  "vm_uuid vm = (case config_uuid vm of None \<Rightarrow> [] | Some u \<Rightarrow> u)"

definition is_running_state :: "vm \<Rightarrow> bool" where
  "is_running_state vm \<longleftrightarrow>
     runtime_powerState vm \<noteq> ''poweredOff'' \<and> guest_guestState vm \<noteq> Some ''notRunning''"

definition has_primary_ip :: "vm \<Rightarrow> bool" where
  "has_primary_ip vm \<longleftrightarrow> (case guest_ipAddress vm of None \<Rightarrow> False | Some a \<Rightarrow> a \<noteq> [])"

definition clears_first_three :: "string list \<Rightarrow> vm \<Rightarrow> bool" where
  "clears_first_three skip_list vm \<longleftrightarrow>
     \<not> should_skip_vm skip_list vm \<and> is_running_state vm \<and> has_primary_ip vm"

definition clears_all_four :: "string list \<Rightarrow> vm list \<Rightarrow> nat \<Rightarrow> bool" where
  "clears_all_four skip_list vms i \<longleftrightarrow>
     clears_first_three skip_list (vms ! i) \<and>
     (vm_uuid (vms ! i) = [] \<or>
      (\<forall>j<i. clears_first_three skip_list (vms ! j) \<longrightarrow> vm_uuid (vms ! j) \<noteq> vm_uuid (vms ! i)))"

definition checked_names :: "string list \<Rightarrow> string \<Rightarrow> vm list \<Rightarrow> string list" where
  "checked_names skip_list u vms =
     map vm_name (filter (\<lambda>vm. clears_first_three skip_list vm \<and> vm_uuid vm = u) vms)"

text \<open>What holds of the loop's state after it has processed the machines \<open>vms\<close>.\<close>

definition collect_facts :: "string list \<Rightarrow> vm list \<Rightarrow> vm_data \<Rightarrow> bool" where
  "collect_facts skip_list vms st \<longleftrightarrow>
     vm_skip_list (vm_collector st) = skip_list
     \<and> seen_uuids (vm_collector st) = vm_uuid ` {vm \<in> set vms. clears_first_three skip_list vm} - {[]}
     \<and> kept_vms st = map ((!) vms) (filter (clears_all_four skip_list vms) [0..<length vms])
     \<and> vm_info st = map (the \<circ> get_vm_properties) (kept_vms st)
     \<and> (\<forall>u. duplicate_uuids (vm_collector st) u =
           (if u \<noteq> [] \<and> 2 \<le> length (checked_names skip_list u vms)
            then Some (tl (checked_names skip_list u vms)) else None))
     \<and> (\<forall>vm \<in> set (kept_vms st). clears_first_three skip_list vm)
     \<and> distinct (filter (\<lambda>u. u \<noteq> []) (map vm_uuid (kept_vms st)))
     \<and> vm_uuid ` set (kept_vms st) - {[]} = seen_uuids (vm_collector st)"

subsection \<open>Example inputs\<close>

definition example_vm :: "string \<Rightarrow> string \<Rightarrow> string \<Rightarrow> vm" where
  "example_vm n ip u =
     \<lparr>vm_name = n, runtime_powerState = ''poweredOn'', guest_guestState = Some ''running'',
      guest_ipAddress = Some ip, config_uuid = Some u\<rparr>"

definition example_inventory :: "vm list" where
  "example_inventory =
     [example_vm ''test-vm-03'' ''10.0.0.3'' ''u-1'',
      example_vm ''web-01'' ''10.0.0.4'' ''u-1'',
      (example_vm ''db-01'' ''10.0.0.5'' ''u-2'')\<lparr>runtime_powerState := ''poweredOff''\<rparr>,
      (example_vm ''db-02'' ''10.0.0.6'' ''u-3'')\<lparr>guest_guestState := Some ''notRunning''\<rparr>,
      example_vm ''cache-01'' [] ''u-4'',
      example_vm ''web-02'' ''10.0.0.7'' ''u-1'',
      example_vm ''web-03'' ''10.0.0.8'' [],
      example_vm ''web-04'' ''10.0.0.9'' ''u-1'']"

definition example_skip_list :: "string list" where
  "example_skip_list = [''vm01'', ''test-*'']"

definition example_calls :: "vm_properties list" where
  "example_calls =
     [\<lparr>VM = ''vm-original'', Powerstate = ''poweredOn'', Primary_IP_Address = ''10.0.0.1'',
       VM_UUID = Some ''duplicate-uuid-test''\<rparr>,
      \<lparr>VM = ''vm-duplicate'', Powerstate = ''poweredOn'', Primary_IP_Address = ''10.0.0.2'',
       VM_UUID = Some ''duplicate-uuid-test''\<rparr>,
      \<lparr>VM = ''vm-anonymous'', Powerstate = ''poweredOn'', Primary_IP_Address = ''10.0.0.3'',
       VM_UUID = None\<rparr>,
      \<lparr>VM = ''vm-again'', Powerstate = ''poweredOn'', Primary_IP_Address = ''10.0.0.4'',
       VM_UUID = Some ''duplicate-uuid-test''\<rparr>]"

section \<open>The duplicate check, call by call\<close>

lemma is_duplicate_uuid_empty:
  "uuid_value p = [] \<Longrightarrow> is_duplicate_uuid p self = (False, self)"
  by (simp add: is_duplicate_uuid_def uuid_value_def Let_def)

lemma is_duplicate_uuid_seen:
  "uuid_value p \<noteq> [] \<Longrightarrow> uuid_value p \<in> seen_uuids self \<Longrightarrow>
   is_duplicate_uuid p self =
     (True, self\<lparr>duplicate_uuids := (duplicate_uuids self)(uuid_value p \<mapsto>
        (case duplicate_uuids self (uuid_value p) of None \<Rightarrow> [] | Some names \<Rightarrow> names) @ [VM p])\<rparr>)"
  by (simp add: is_duplicate_uuid_def uuid_value_def Let_def)

lemma is_duplicate_uuid_new:
  "uuid_value p \<noteq> [] \<Longrightarrow> uuid_value p \<notin> seen_uuids self \<Longrightarrow>
   is_duplicate_uuid p self = (False, self\<lparr>seen_uuids := insert (uuid_value p) (seen_uuids self)\<rparr>)"
  by (simp add: is_duplicate_uuid_def uuid_value_def Let_def)

lemma is_duplicate_uuid_cases:
  obtains (empty) "uuid_value p = []" "is_duplicate_uuid p self = (False, self)"
  | (seen) "uuid_value p \<noteq> []" "uuid_value p \<in> seen_uuids self"
      "is_duplicate_uuid p self =
        (True, self\<lparr>duplicate_uuids := (duplicate_uuids self)(uuid_value p \<mapsto>
          (case duplicate_uuids self (uuid_value p) of None \<Rightarrow> [] | Some names \<Rightarrow> names) @ [VM p])\<rparr>)"
  | (new) "uuid_value p \<noteq> []" "uuid_value p \<notin> seen_uuids self"
      "is_duplicate_uuid p self = (False, self\<lparr>seen_uuids := insert (uuid_value p) (seen_uuids self)\<rparr>)"
  using is_duplicate_uuid_empty is_duplicate_uuid_seen is_duplicate_uuid_new by blast

lemma ledger_invariant_step:
  assumes "ledger_invariant self"
  shows "ledger_invariant (snd (is_duplicate_uuid p self))"
proof (cases p self rule: is_duplicate_uuid_cases)
  case empty
  then show ?thesis using assms by simp
next
  case seen
  have "[] \<notin> ran ((duplicate_uuids self)(uuid_value p \<mapsto> ns @ [VM p]))" for ns
    using assms by (auto simp: ledger_invariant_def ran_def)
  then show ?thesis
    using assms seen by (auto simp: ledger_invariant_def)
next
  case new
  then show ?thesis using assms by (auto simp: ledger_invariant_def)
qed

lemma ledger_grows_step: "ledger_grows self (snd (is_duplicate_uuid p self))"
proof (cases p self rule: is_duplicate_uuid_cases)
  case empty
  then show ?thesis by (simp add: ledger_grows_def)
next
  case seen
  then show ?thesis by (auto simp: ledger_grows_def)
next
  case new
  then show ?thesis by (auto simp: ledger_grows_def)
qed

lemma ledger_invariant_new: "ledger_invariant (new_vm_collector sl)"
  by (simp add: ledger_invariant_def new_vm_collector_def)

section \<open>A run of duplicate checks\<close>

lemma duplicate_checks_Nil: "duplicate_checks self [] = ([], self)"
  by (simp add: duplicate_checks_def)

lemma duplicate_checks_snoc:
  "duplicate_checks self (calls @ [p]) =
     (fst (duplicate_checks self calls) @ [fst (is_duplicate_uuid p (snd (duplicate_checks self calls)))],
      snd (is_duplicate_uuid p (snd (duplicate_checks self calls))))"
  by (simp add: duplicate_checks_def split_beta)

lemma names_with_uuid_snoc:
  "names_with_uuid u (calls @ [p]) =
     names_with_uuid u calls @ (if uuid_value p = u then [VM p] else [])"
  by (simp add: names_with_uuid_def)

lemma names_with_uuid_empty_iff:
  "names_with_uuid u calls = [] \<longleftrightarrow> u \<notin> uuid_value ` set calls"
  by (auto simp: names_with_uuid_def filter_empty_conv)

lemma earlier_same_uuid_iff:
  "(\<exists>j<length calls. uuid_value (calls ! j) = u) \<longleftrightarrow> u \<in> uuid_value ` set calls"
proof
  assume "\<exists>j<length calls. uuid_value (calls ! j) = u"
  then obtain j where "j < length calls" "uuid_value (calls ! j) = u" by blast
  then have "calls ! j \<in> set calls" by simp
  then show "u \<in> uuid_value ` set calls"
    using \<open>uuid_value (calls ! j) = u\<close> by blast
next
  assume "u \<in> uuid_value ` set calls"
  then obtain x where "x \<in> set calls" "u = uuid_value x" by blast
  then obtain j where "j < length calls" "calls ! j = x"
    by (auto simp: in_set_conv_nth)
  then show "\<exists>j<length calls. uuid_value (calls ! j) = u"
    using \<open>u = uuid_value x\<close> by blast
qed

lemma run_facts_fresh:
  assumes "seen_uuids self = {}" "duplicate_uuids self = Map.empty"
  shows "run_facts self calls"
proof (induction calls rule: rev_induct)
  case Nil
  then show ?case
    using assms by (simp add: run_facts_def duplicate_checks_Nil names_with_uuid_def)
next
  case (snoc p calls)
  define rs where "rs = fst (duplicate_checks self calls)"
  define s where "s = snd (duplicate_checks self calls)"
  have len: "length rs = length calls"
    and seen: "seen_uuids s = uuid_value ` set calls - {[]}"
    and res: "\<And>i. i < length calls \<Longrightarrow> rs ! i =
           (uuid_value (calls ! i) \<noteq> [] \<and> (\<exists>j<i. uuid_value (calls ! j) = uuid_value (calls ! i)))"
    and dups: "\<And>u. duplicate_uuids s u =
           (if u \<noteq> [] \<and> 2 \<le> length (names_with_uuid u calls)
            then Some (tl (names_with_uuid u calls)) else None)"
    using snoc.IH by (simp_all add: run_facts_def rs_def s_def)
  have step: "duplicate_checks self (calls @ [p]) =
      (rs @ [fst (is_duplicate_uuid p s)], snd (is_duplicate_uuid p s))"
    by (simp add: duplicate_checks_snoc rs_def s_def)
  have old: "(rs @ [r]) ! i = rs ! i" if "i < length calls" for i r
    using that len by (simp add: nth_append)
  have last: "(rs @ [r]) ! length calls = r" for r
    using len by (simp add: nth_append)
  have nth_old: "(calls @ [p]) ! i = calls ! i" if "i < length calls" for i
    using that by (simp add: nth_append)
  have res_old: "(rs @ [r]) ! i =
      (uuid_value ((calls @ [p]) ! i) \<noteq> [] \<and>
       (\<exists>j<i. uuid_value ((calls @ [p]) ! j) = uuid_value ((calls @ [p]) ! i)))"
    if "i < length calls" for i r
  proof -
    have a: "(calls @ [p]) ! i = calls ! i"
      using that by (simp add: nth_append)
    have all: "(calls @ [p]) ! j = calls ! j" if "j < i" for j
      using that \<open>i < length calls\<close> by (simp add: nth_append)
    have b: "(\<exists>j<i. uuid_value ((calls @ [p]) ! j) = u) = (\<exists>j<i. uuid_value (calls ! j) = u)" for u
    proof
      assume "\<exists>j<i. uuid_value ((calls @ [p]) ! j) = u"
      then obtain j where j: "j < i" "uuid_value ((calls @ [p]) ! j) = u" by blast
      then have "uuid_value (calls ! j) = u" using all [OF j(1)] by simp
      then show "\<exists>j<i. uuid_value (calls ! j) = u" using j(1) by blast
    next
      assume "\<exists>j<i. uuid_value (calls ! j) = u"
      then obtain j where j: "j < i" "uuid_value (calls ! j) = u" by blast
      then have "uuid_value ((calls @ [p]) ! j) = u" using all [OF j(1)] by simp
      then show "\<exists>j<i. uuid_value ((calls @ [p]) ! j) = u" using j(1) by blast
    qed
    have "(rs @ [r]) ! i = rs ! i"
      by (rule old [OF that])
    also have "\<dots> = (uuid_value (calls ! i) \<noteq> [] \<and>
        (\<exists>j<i. uuid_value (calls ! j) = uuid_value (calls ! i)))"
      by (rule res [OF that])
    also have "\<dots> = (uuid_value ((calls @ [p]) ! i) \<noteq> [] \<and>
        (\<exists>j<i. uuid_value ((calls @ [p]) ! j) = uuid_value ((calls @ [p]) ! i)))"
      unfolding a b ..
    finally show ?thesis .
  qed
  have res_all: "\<forall>i<length (calls @ [p]). (rs @ [r]) ! i =
      (uuid_value ((calls @ [p]) ! i) \<noteq> [] \<and>
       (\<exists>j<i. uuid_value ((calls @ [p]) ! j) = uuid_value ((calls @ [p]) ! i)))"
    if "r = (uuid_value p \<noteq> [] \<and> uuid_value p \<in> uuid_value ` set calls)" for r
  proof (intro allI impI)
    fix i assume "i < length (calls @ [p])"
    then consider "i < length calls" | "i = length calls" by fastforce
    then show "(rs @ [r]) ! i =
      (uuid_value ((calls @ [p]) ! i) \<noteq> [] \<and>
       (\<exists>j<i. uuid_value ((calls @ [p]) ! j) = uuid_value ((calls @ [p]) ! i)))"
    proof cases
      case 1
      then show ?thesis by (rule res_old)
    next
      case 2
      have "(\<exists>j<length calls. uuid_value ((calls @ [p]) ! j) = uuid_value p)
            \<longleftrightarrow> uuid_value p \<in> uuid_value ` set calls"
        using earlier_same_uuid_iff [of calls "uuid_value p"] by (auto simp: nth_append)
      then show ?thesis
        using 2 that last by simp
    qed
  qed
  show ?case
  proof (cases p s rule: is_duplicate_uuid_cases)
    case empty
    have "\<forall>u. duplicate_uuids s u =
           (if u \<noteq> [] \<and> 2 \<le> length (names_with_uuid u (calls @ [p]))
            then Some (tl (names_with_uuid u (calls @ [p]))) else None)"
      using dups empty(1) by (auto simp: names_with_uuid_snoc)
    moreover have "seen_uuids s = uuid_value ` set (calls @ [p]) - {[]}"
      using seen empty(1) by auto
    ultimately show ?thesis
      unfolding run_facts_def step
      using empty len res_all [of False] by simp
  next
    case seen
    have mem: "uuid_value p \<in> uuid_value ` set calls"
      using seen(2) \<open>seen_uuids s = _\<close> by simp
    then have ne: "names_with_uuid (uuid_value p) calls \<noteq> []"
      by (simp add: names_with_uuid_empty_iff)
    have "(if u = uuid_value p
           then Some ((case duplicate_uuids s (uuid_value p) of None \<Rightarrow> [] | Some names \<Rightarrow> names) @ [VM p])
           else duplicate_uuids s u) =
           (if u \<noteq> [] \<and> 2 \<le> length (names_with_uuid u (calls @ [p]))
            then Some (tl (names_with_uuid u (calls @ [p]))) else None)" for u
    proof (cases "u = uuid_value p")
      case True
      obtain n ns where ns: "names_with_uuid (uuid_value p) calls = n # ns"
        using ne by (cases "names_with_uuid (uuid_value p) calls") auto
      show ?thesis
        using True seen(1) ns dups [of "uuid_value p"]
        by (cases ns) (simp_all add: names_with_uuid_snoc)
    next
      case False
      then show ?thesis using dups [of u] by (simp add: names_with_uuid_snoc)
    qed
    then have "\<forall>u. duplicate_uuids (snd (is_duplicate_uuid p s)) u =
           (if u \<noteq> [] \<and> 2 \<le> length (names_with_uuid u (calls @ [p]))
            then Some (tl (names_with_uuid u (calls @ [p]))) else None)"
      using seen(3) by simp
    moreover have "seen_uuids (snd (is_duplicate_uuid p s)) = uuid_value ` set (calls @ [p]) - {[]}"
      using \<open>seen_uuids s = _\<close> seen mem by auto
    ultimately show ?thesis
      unfolding run_facts_def step
      using seen len mem res_all [of True] by simp
  next
    case new
    have nmem: "uuid_value p \<notin> uuid_value ` set calls"
      using new(1,2) seen by simp
    then have e: "names_with_uuid (uuid_value p) calls = []"
      by (simp add: names_with_uuid_empty_iff)
    have "duplicate_uuids s u =
           (if u \<noteq> [] \<and> 2 \<le> length (names_with_uuid u (calls @ [p]))
            then Some (tl (names_with_uuid u (calls @ [p]))) else None)" for u
      using dups [of u] e by (cases "u = uuid_value p") (simp_all add: names_with_uuid_snoc)
    then have "\<forall>u. duplicate_uuids (snd (is_duplicate_uuid p s)) u =
           (if u \<noteq> [] \<and> 2 \<le> length (names_with_uuid u (calls @ [p]))
            then Some (tl (names_with_uuid u (calls @ [p]))) else None)"
      using new(3) by simp
    moreover have "seen_uuids (snd (is_duplicate_uuid p s)) = uuid_value ` set (calls @ [p]) - {[]}"
      using seen new by auto
    ultimately show ?thesis
      unfolding run_facts_def step
      using new len nmem res_all [of False] by simp
  qed
qed

section \<open>One iteration of the processing loop\<close>

lemma get_vm_properties_clears:
  assumes "is_running_state vm"
  shows "get_vm_properties vm =
     Some \<lparr>VM = vm_name vm, Powerstate = runtime_powerState vm,
           Primary_IP_Address = (case guest_ipAddress vm of None \<Rightarrow> [] | Some a \<Rightarrow> a),
           VM_UUID = (case config_uuid vm of None \<Rightarrow> Some [] | Some u \<Rightarrow> Some u)\<rparr>"
  using assms by (simp add: get_vm_properties_def is_running_state_def)

lemma get_vm_properties_not_running:
  "\<not> is_running_state vm \<Longrightarrow> get_vm_properties vm = None"
  by (auto simp: get_vm_properties_def is_running_state_def)

lemma properties_of_running:
  assumes "is_running_state vm"
  obtains props where "get_vm_properties vm = Some props"
    "uuid_value props = vm_uuid vm" "VM props = vm_name vm"
    "Primary_IP_Address props = [] \<longleftrightarrow> \<not> has_primary_ip vm"
proof -
  let ?p = "\<lparr>VM = vm_name vm, Powerstate = runtime_powerState vm,
           Primary_IP_Address = (case guest_ipAddress vm of None \<Rightarrow> [] | Some a \<Rightarrow> a),
           VM_UUID = (case config_uuid vm of None \<Rightarrow> Some [] | Some u \<Rightarrow> Some u)\<rparr>"
  have "get_vm_properties vm = Some ?p"
    using assms by (rule get_vm_properties_clears)
  moreover have "uuid_value ?p = vm_uuid vm"
    by (simp add: uuid_value_def vm_uuid_def split: option.splits)
  moreover have "VM ?p = vm_name vm" by simp
  moreover have "Primary_IP_Address ?p = [] \<longleftrightarrow> \<not> has_primary_ip vm"
    by (simp add: has_primary_ip_def split: option.splits)
  ultimately show thesis using that by blast
qed

lemma process_vm_dropped:
  assumes "\<not> clears_first_three (vm_skip_list (vm_collector st)) vm"
  shows "process_vm st vm = st"
proof (cases "should_skip_vm (vm_skip_list (vm_collector st)) vm")
  case True
  then show ?thesis by (simp add: process_vm_def)
next
  case skip: False
  show ?thesis
  proof (cases "is_running_state vm")
    case False
    then show ?thesis
      by (simp add: process_vm_def get_vm_properties_not_running)
  next
    case True
    then obtain props where p: "get_vm_properties vm = Some props"
      "Primary_IP_Address props = [] \<longleftrightarrow> \<not> has_primary_ip vm"
      by (rule properties_of_running)
    have "\<not> has_primary_ip vm"
      using assms skip True by (simp add: clears_first_three_def)
    then show ?thesis
      using p by (simp add: process_vm_def)
  qed
qed

lemma process_vm_checked:
  assumes "clears_first_three (vm_skip_list (vm_collector st)) vm"
  obtains props where "get_vm_properties vm = Some props"
    "uuid_value props = vm_uuid vm" "VM props = vm_name vm"
    "process_vm st vm =
       (if fst (is_duplicate_uuid props (vm_collector st))
        then st\<lparr>vm_collector := snd (is_duplicate_uuid props (vm_collector st))\<rparr>
        else st\<lparr>vm_collector := snd (is_duplicate_uuid props (vm_collector st)),
                vm_info := vm_info st @ [props],
                kept_vms := kept_vms st @ [vm]\<rparr>)"
proof -
  have r: "is_running_state vm" and ip: "has_primary_ip vm"
    and sk: "\<not> should_skip_vm (vm_skip_list (vm_collector st)) vm"
    using assms by (simp_all add: clears_first_three_def)
  from r obtain props where p: "get_vm_properties vm = Some props"
    "uuid_value props = vm_uuid vm" "VM props = vm_name vm"
    "Primary_IP_Address props = [] \<longleftrightarrow> \<not> has_primary_ip vm"
    by (rule properties_of_running)
  have "process_vm st vm =
       (if fst (is_duplicate_uuid props (vm_collector st))
        then st\<lparr>vm_collector := snd (is_duplicate_uuid props (vm_collector st))\<rparr>
        else st\<lparr>vm_collector := snd (is_duplicate_uuid props (vm_collector st)),
                vm_info := vm_info st @ [props],
                kept_vms := kept_vms st @ [vm]\<rparr>)"
    using sk ip p(1,4) by (simp add: process_vm_def split: prod.splits bool.splits)
  then show thesis using p(1-3) that by blast
qed

lemma collect_vm_data_Nil:
  "collect_vm_data self [] = \<lparr>vm_collector = self, vm_info = [], kept_vms = []\<rparr>"
  by (simp add: collect_vm_data_def)

lemma collect_vm_data_snoc:
  "collect_vm_data self (vms @ [vm]) = process_vm (collect_vm_data self vms) vm"
  by (simp add: collect_vm_data_def)

section \<open>Appending one machine to the processed list\<close>

lemma clears_all_four_old:
  assumes "i < length vms"
  shows "clears_all_four sl (vms @ [v]) i = clears_all_four sl vms i"
proof -
  have a: "(vms @ [v]) ! j = vms ! j" if "j < i" for j
    using that assms by (simp add: nth_append)
  have a0: "(vms @ [v]) ! i = vms ! i"
    using assms by (simp add: nth_append)
  show ?thesis
    by (simp add: clears_all_four_def a a0)
qed

lemma clears_all_four_last:
  "clears_all_four sl (vms @ [v]) (length vms) \<longleftrightarrow>
     clears_first_three sl v \<and>
     (vm_uuid v = [] \<or> vm_uuid v \<notin> vm_uuid ` {x \<in> set vms. clears_first_three sl x})"
proof -
  have a: "(vms @ [v]) ! j = vms ! j" if "j < length vms" for j
    using that by (simp add: nth_append)
  have "(\<forall>j<length vms. clears_first_three sl (vms ! j) \<longrightarrow> vm_uuid (vms ! j) \<noteq> u)
        \<longleftrightarrow> (\<forall>x\<in>set vms. clears_first_three sl x \<longrightarrow> vm_uuid x \<noteq> u)" for u
    by (simp add: all_set_conv_all_nth)
  also have "\<dots> u \<longleftrightarrow> u \<notin> vm_uuid ` {x \<in> set vms. clears_first_three sl x}" for u
    by blast
  finally have b: "(\<forall>j<length vms. clears_first_three sl (vms ! j) \<longrightarrow> vm_uuid (vms ! j) \<noteq> u)
        \<longleftrightarrow> u \<notin> vm_uuid ` {x \<in> set vms. clears_first_three sl x}" for u .
  show ?thesis
    by (simp add: clears_all_four_def a b)
qed

lemma kept_indices_snoc:
  "map ((!) (vms @ [v])) (filter (clears_all_four sl (vms @ [v])) [0..<length (vms @ [v])]) =
     map ((!) vms) (filter (clears_all_four sl vms) [0..<length vms]) @
     (if clears_first_three sl v \<and>
         (vm_uuid v = [] \<or> vm_uuid v \<notin> vm_uuid ` {x \<in> set vms. clears_first_three sl x})
      then [v] else [])"
proof -
  have f: "filter (clears_all_four sl (vms @ [v])) [0..<length vms] =
           filter (clears_all_four sl vms) [0..<length vms]"
    by (rule filter_cong) (simp_all add: clears_all_four_old)
  have m: "map ((!) (vms @ [v])) (filter (clears_all_four sl vms) [0..<length vms]) =
           map ((!) vms) (filter (clears_all_four sl vms) [0..<length vms])"
    by (rule map_cong) (simp_all add: nth_append)
  show ?thesis
    using clears_all_four_last [of sl vms v]
    by (simp add: f m)
qed

lemma checked_names_snoc:
  "checked_names sl u (vms @ [v]) =
     checked_names sl u vms @ (if clears_first_three sl v \<and> vm_uuid v = u then [vm_name v] else [])"
  by (simp add: checked_names_def)

lemma checked_names_empty_iff:
  "checked_names sl u vms = [] \<longleftrightarrow> u \<notin> vm_uuid ` {x \<in> set vms. clears_first_three sl x}"
  by (auto simp: checked_names_def filter_empty_conv)

lemma accepted_snoc_drop:
  "\<not> clears_first_three sl v \<Longrightarrow>
   {x \<in> set (vms @ [v]). clears_first_three sl x} = {x \<in> set vms. clears_first_three sl x}"
  by auto

lemma accepted_snoc_keep:
  "clears_first_three sl v \<Longrightarrow>
   {x \<in> set (vms @ [v]). clears_first_three sl x} = insert v {x \<in> set vms. clears_first_three sl x}"
  by auto

lemma collect_factsI:
  assumes "vm_skip_list (vm_collector st) = sl"
    and "seen_uuids (vm_collector st) = vm_uuid ` {vm \<in> set vms. clears_first_three sl vm} - {[]}"
    and "kept_vms st = map ((!) vms) (filter (clears_all_four sl vms) [0..<length vms])"
    and "vm_info st = map (the \<circ> get_vm_properties) (kept_vms st)"
    and "\<And>u. duplicate_uuids (vm_collector st) u =
           (if u \<noteq> [] \<and> 2 \<le> length (checked_names sl u vms)
            then Some (tl (checked_names sl u vms)) else None)"
    and "\<And>vm. vm \<in> set (kept_vms st) \<Longrightarrow> clears_first_three sl vm"
    and "distinct (filter (\<lambda>u. u \<noteq> []) (map vm_uuid (kept_vms st)))"
    and "vm_uuid ` set (kept_vms st) - {[]} = seen_uuids (vm_collector st)"
  shows "collect_facts sl vms st"
  unfolding collect_facts_def
  using assms by (intro conjI allI ballI)

lemma collect_factsD:
  assumes "collect_facts sl vms st"
  shows "vm_skip_list (vm_collector st) = sl"
    and "seen_uuids (vm_collector st) = vm_uuid ` {vm \<in> set vms. clears_first_three sl vm} - {[]}"
    and "kept_vms st = map ((!) vms) (filter (clears_all_four sl vms) [0..<length vms])"
    and "vm_info st = map (the \<circ> get_vm_properties) (kept_vms st)"
    and "\<And>u. duplicate_uuids (vm_collector st) u =
           (if u \<noteq> [] \<and> 2 \<le> length (checked_names sl u vms)
            then Some (tl (checked_names sl u vms)) else None)"
    and "\<And>vm. vm \<in> set (kept_vms st) \<Longrightarrow> clears_first_three sl vm"
    and "distinct (filter (\<lambda>u. u \<noteq> []) (map vm_uuid (kept_vms st)))"
    and "vm_uuid ` set (kept_vms st) - {[]} = seen_uuids (vm_collector st)"
proof -
  have a: "vm_skip_list (vm_collector st) = sl
     \<and> seen_uuids (vm_collector st) = vm_uuid ` {vm \<in> set vms. clears_first_three sl vm} - {[]}
     \<and> kept_vms st = map ((!) vms) (filter (clears_all_four sl vms) [0..<length vms])
     \<and> vm_info st = map (the \<circ> get_vm_properties) (kept_vms st)
     \<and> (\<forall>u. duplicate_uuids (vm_collector st) u =
           (if u \<noteq> [] \<and> 2 \<le> length (checked_names sl u vms)
            then Some (tl (checked_names sl u vms)) else None))
     \<and> (\<forall>vm \<in> set (kept_vms st). clears_first_three sl vm)
     \<and> distinct (filter (\<lambda>u. u \<noteq> []) (map vm_uuid (kept_vms st)))
     \<and> vm_uuid ` set (kept_vms st) - {[]} = seen_uuids (vm_collector st)"
    using assms unfolding collect_facts_def .
  show "vm_skip_list (vm_collector st) = sl"
    using a by (elim conjE)
  show "seen_uuids (vm_collector st) = vm_uuid ` {vm \<in> set vms. clears_first_three sl vm} - {[]}"
    using a by (elim conjE)
  show "kept_vms st = map ((!) vms) (filter (clears_all_four sl vms) [0..<length vms])"
    using a by (elim conjE)
  show "vm_info st = map (the \<circ> get_vm_properties) (kept_vms st)"
    using a by (elim conjE)
  have "\<forall>u. duplicate_uuids (vm_collector st) u =
           (if u \<noteq> [] \<and> 2 \<le> length (checked_names sl u vms)
            then Some (tl (checked_names sl u vms)) else None)"
    using a by (elim conjE)
  then show "\<And>u. duplicate_uuids (vm_collector st) u =
           (if u \<noteq> [] \<and> 2 \<le> length (checked_names sl u vms)
            then Some (tl (checked_names sl u vms)) else None)"
    by (rule spec)
  have b: "\<forall>vm \<in> set (kept_vms st). clears_first_three sl vm"
    using a by (elim conjE)
  show "\<And>vm. vm \<in> set (kept_vms st) \<Longrightarrow> clears_first_three sl vm"
    using b by (rule bspec)
  show "distinct (filter (\<lambda>u. u \<noteq> []) (map vm_uuid (kept_vms st)))"
    using a by (elim conjE)
  show "vm_uuid ` set (kept_vms st) - {[]} = seen_uuids (vm_collector st)"
    using a by (elim conjE)
qed

lemma collect_facts_drop:
  assumes "collect_facts sl vms st" "\<not> clears_first_three sl v"
  shows "collect_facts sl (vms @ [v]) st"
proof (rule collect_factsI)
  note f = collect_factsD [OF assms(1)]
  show "vm_skip_list (vm_collector st) = sl" by (rule f(1))
  show "seen_uuids (vm_collector st) =
        vm_uuid ` {vm \<in> set (vms @ [v]). clears_first_three sl vm} - {[]}"
    unfolding accepted_snoc_drop [OF assms(2)] by (rule f(2))
  show "kept_vms st = map ((!) (vms @ [v]))
          (filter (clears_all_four sl (vms @ [v])) [0..<length (vms @ [v])])"
    unfolding kept_indices_snoc using assms(2) f(3) by simp
  show "vm_info st = map (the \<circ> get_vm_properties) (kept_vms st)" by (rule f(4))
  show "duplicate_uuids (vm_collector st) u =
           (if u \<noteq> [] \<and> 2 \<le> length (checked_names sl u (vms @ [v]))
            then Some (tl (checked_names sl u (vms @ [v]))) else None)" for u
    unfolding checked_names_snoc using assms(2) f(5) [of u] by simp
  show "clears_first_three sl vm" if "vm \<in> set (kept_vms st)" for vm
    using that by (rule f(6))
  show "distinct (filter (\<lambda>u. u \<noteq> []) (map vm_uuid (kept_vms st)))" by (rule f(7))
  show "vm_uuid ` set (kept_vms st) - {[]} = seen_uuids (vm_collector st)" by (rule f(8))
qed

lemma collect_facts_keep_no_uuid:
  assumes "collect_facts sl vms st" "clears_first_three sl v" "vm_uuid v = []"
    and "get_vm_properties v = Some props"
  shows "collect_facts sl (vms @ [v])
           (st\<lparr>vm_collector := vm_collector st,
               vm_info := vm_info st @ [props], kept_vms := kept_vms st @ [v]\<rparr>)"
    (is "collect_facts _ _ ?st'")
proof (rule collect_factsI)
  note f = collect_factsD [OF assms(1)]
  have c: "vm_collector ?st' = vm_collector st" and k: "kept_vms ?st' = kept_vms st @ [v]"
    and i: "vm_info ?st' = vm_info st @ [props]"
    by simp_all
  show "vm_skip_list (vm_collector ?st') = sl" unfolding c by (rule f(1))
  show "seen_uuids (vm_collector ?st') =
        vm_uuid ` {vm \<in> set (vms @ [v]). clears_first_three sl vm} - {[]}"
    unfolding c accepted_snoc_keep [OF assms(2)] using f(2) assms(3) by simp
  show "kept_vms ?st' = map ((!) (vms @ [v]))
          (filter (clears_all_four sl (vms @ [v])) [0..<length (vms @ [v])])"
    unfolding k kept_indices_snoc using assms(2,3) f(3) by simp
  show "vm_info ?st' = map (the \<circ> get_vm_properties) (kept_vms ?st')"
    unfolding k i using f(4) assms(4) by simp
  show "duplicate_uuids (vm_collector ?st') u =
           (if u \<noteq> [] \<and> 2 \<le> length (checked_names sl u (vms @ [v]))
            then Some (tl (checked_names sl u (vms @ [v]))) else None)" for u
    unfolding c checked_names_snoc using assms(3) f(5) [of u] by (cases "u = []") simp_all
  show "clears_first_three sl vm" if "vm \<in> set (kept_vms ?st')" for vm
    using that f(6) assms(2) unfolding k by auto
  show "distinct (filter (\<lambda>u. u \<noteq> []) (map vm_uuid (kept_vms ?st')))"
    unfolding k using f(7) assms(3) by simp
  show "vm_uuid ` set (kept_vms ?st') - {[]} = seen_uuids (vm_collector ?st')"
    unfolding k c using f(8) assms(3) by auto
qed

lemma collect_facts_duplicate:
  assumes "collect_facts sl vms st" "clears_first_three sl v" "vm_uuid v \<noteq> []"
    and "vm_uuid v \<in> seen_uuids (vm_collector st)"
  shows "collect_facts sl (vms @ [v])
           (st\<lparr>vm_collector := (vm_collector st)\<lparr>duplicate_uuids :=
               (duplicate_uuids (vm_collector st))(vm_uuid v \<mapsto>
                 (case duplicate_uuids (vm_collector st) (vm_uuid v) of
                    None \<Rightarrow> [] | Some names \<Rightarrow> names) @ [vm_name v])\<rparr>\<rparr>)"
    (is "collect_facts _ _ ?st'")
proof (rule collect_factsI)
  note f = collect_factsD [OF assms(1)]
  have mem: "vm_uuid v \<in> vm_uuid ` {x \<in> set vms. clears_first_three sl x}"
    using assms(4) f(2) by simp
  have s: "seen_uuids (vm_collector ?st') = seen_uuids (vm_collector st)"
    and k: "kept_vms ?st' = kept_vms st" and i: "vm_info ?st' = vm_info st"
    and sk: "vm_skip_list (vm_collector ?st') = vm_skip_list (vm_collector st)"
    by simp_all
  have d: "duplicate_uuids (vm_collector ?st') u =
      (if u = vm_uuid v
       then Some ((case duplicate_uuids (vm_collector st) (vm_uuid v) of
                    None \<Rightarrow> [] | Some names \<Rightarrow> names) @ [vm_name v])
       else duplicate_uuids (vm_collector st) u)" for u
    by simp
  show "vm_skip_list (vm_collector ?st') = sl" unfolding sk by (rule f(1))
  show "seen_uuids (vm_collector ?st') =
        vm_uuid ` {vm \<in> set (vms @ [v]). clears_first_three sl vm} - {[]}"
    unfolding s accepted_snoc_keep [OF assms(2)] using f(2) mem by auto
  show "kept_vms ?st' = map ((!) (vms @ [v]))
          (filter (clears_all_four sl (vms @ [v])) [0..<length (vms @ [v])])"
    unfolding k kept_indices_snoc using assms(3) mem f(3) by simp
  show "vm_info ?st' = map (the \<circ> get_vm_properties) (kept_vms ?st')"
    unfolding k i by (rule f(4))
  show "duplicate_uuids (vm_collector ?st') u =
           (if u \<noteq> [] \<and> 2 \<le> length (checked_names sl u (vms @ [v]))
            then Some (tl (checked_names sl u (vms @ [v]))) else None)" for u
  proof (cases "u = vm_uuid v")
    case True
    have "checked_names sl (vm_uuid v) vms \<noteq> []"
      using mem by (simp add: checked_names_empty_iff)
    then obtain n ns where ns: "checked_names sl (vm_uuid v) vms = n # ns"
      by (cases "checked_names sl (vm_uuid v) vms") auto
    show ?thesis
      unfolding d checked_names_snoc
      using True assms(2,3) ns f(5) [of "vm_uuid v"]
      by (cases ns) simp_all
  next
    case False
    then show ?thesis
      unfolding d checked_names_snoc using f(5) [of u] by simp
  qed
  show "clears_first_three sl vm" if "vm \<in> set (kept_vms ?st')" for vm
    using that unfolding k by (rule f(6))
  show "distinct (filter (\<lambda>u. u \<noteq> []) (map vm_uuid (kept_vms ?st')))"
    unfolding k by (rule f(7))
  show "vm_uuid ` set (kept_vms ?st') - {[]} = seen_uuids (vm_collector ?st')"
    unfolding k s by (rule f(8))
qed

lemma collect_facts_first:
  assumes "collect_facts sl vms st" "clears_first_three sl v" "vm_uuid v \<noteq> []"
    and "vm_uuid v \<notin> seen_uuids (vm_collector st)"
    and "get_vm_properties v = Some props"
  shows "collect_facts sl (vms @ [v])
           (st\<lparr>vm_collector := (vm_collector st)\<lparr>seen_uuids :=
                  insert (vm_uuid v) (seen_uuids (vm_collector st))\<rparr>,
               vm_info := vm_info st @ [props], kept_vms := kept_vms st @ [v]\<rparr>)"
    (is "collect_facts _ _ ?st'")
proof (rule collect_factsI)
  note f = collect_factsD [OF assms(1)]
  have nmem: "vm_uuid v \<notin> vm_uuid ` {x \<in> set vms. clears_first_three sl x}"
    using assms(3,4) f(2) by simp
  have s: "seen_uuids (vm_collector ?st') = insert (vm_uuid v) (seen_uuids (vm_collector st))"
    and k: "kept_vms ?st' = kept_vms st @ [v]" and i: "vm_info ?st' = vm_info st @ [props]"
    and sk: "vm_skip_list (vm_collector ?st') = vm_skip_list (vm_collector st)"
    and d: "duplicate_uuids (vm_collector ?st') = duplicate_uuids (vm_collector st)"
    by simp_all
  show "vm_skip_list (vm_collector ?st') = sl" unfolding sk by (rule f(1))
  show "seen_uuids (vm_collector ?st') =
        vm_uuid ` {vm \<in> set (vms @ [v]). clears_first_three sl vm} - {[]}"
    unfolding s accepted_snoc_keep [OF assms(2)] using f(2) assms(3) by auto
  show "kept_vms ?st' = map ((!) (vms @ [v]))
          (filter (clears_all_four sl (vms @ [v])) [0..<length (vms @ [v])])"
    unfolding k kept_indices_snoc using assms(2) nmem f(3) by simp
  show "vm_info ?st' = map (the \<circ> get_vm_properties) (kept_vms ?st')"
    unfolding k i using f(4) assms(5) by simp
  show "duplicate_uuids (vm_collector ?st') u =
           (if u \<noteq> [] \<and> 2 \<le> length (checked_names sl u (vms @ [v]))
            then Some (tl (checked_names sl u (vms @ [v]))) else None)" for u
  proof (cases "u = vm_uuid v")
    case True
    have "checked_names sl (vm_uuid v) vms = []"
      using nmem by (simp add: checked_names_empty_iff)
    then show ?thesis
      unfolding d checked_names_snoc
      using True assms(2) f(5) [of "vm_uuid v"] by simp
  next
    case False
    then show ?thesis
      unfolding d checked_names_snoc using f(5) [of u] by simp
  qed
  show "clears_first_three sl vm" if "vm \<in> set (kept_vms ?st')" for vm
    using that f(6) assms(2) unfolding k by auto
  have "vm_uuid v \<notin> vm_uuid ` set (kept_vms st) - {[]}"
    unfolding f(8) by (rule assms(4))
  then have "vm_uuid v \<notin> set (filter (\<lambda>u. u \<noteq> []) (map vm_uuid (kept_vms st)))"
    using assms(3) by auto
  then show "distinct (filter (\<lambda>u. u \<noteq> []) (map vm_uuid (kept_vms ?st')))"
    unfolding k using f(7) assms(3) by simp
  show "vm_uuid ` set (kept_vms ?st') - {[]} = seen_uuids (vm_collector ?st')"
    unfolding k s using f(8) assms(3) by auto
qed

section \<open>The state of the loop after a run\<close>

lemma collect_facts_Nil:
  assumes "seen_uuids self = {}" "duplicate_uuids self = Map.empty"
  shows "collect_facts (vm_skip_list self) [] (collect_vm_data self [])"
  by (rule collect_factsI) (simp_all add: collect_vm_data_Nil assms checked_names_def)

lemma collect_facts_step:
  assumes "collect_facts sl vms st"
  shows "collect_facts sl (vms @ [v]) (process_vm st v)"
proof -
  note f = collect_factsD [OF assms]
  show ?thesis
  proof (cases "clears_first_three sl v")
    case False
    then have "process_vm st v = st"
      using f(1) by (simp add: process_vm_dropped)
    then show ?thesis
      using collect_facts_drop [OF assms False] by simp
  next
    case True
    then have "clears_first_three (vm_skip_list (vm_collector st)) v"
      using f(1) by simp
    then obtain props where p: "get_vm_properties v = Some props"
      "uuid_value props = vm_uuid v" "VM props = vm_name v"
      and step: "process_vm st v =
       (if fst (is_duplicate_uuid props (vm_collector st))
        then st\<lparr>vm_collector := snd (is_duplicate_uuid props (vm_collector st))\<rparr>
        else st\<lparr>vm_collector := snd (is_duplicate_uuid props (vm_collector st)),
                vm_info := vm_info st @ [props],
                kept_vms := kept_vms st @ [v]\<rparr>)"
      by (rule process_vm_checked)
    show ?thesis
    proof (cases props "vm_collector st" rule: is_duplicate_uuid_cases)
      case empty
      then have "vm_uuid v = []" using p(2) by simp
      from collect_facts_keep_no_uuid [OF assms True this p(1)]
      show ?thesis unfolding step empty(2) by simp
    next
      case seen
      then have u: "vm_uuid v \<noteq> []" "vm_uuid v \<in> seen_uuids (vm_collector st)"
        using p(2) by simp_all
      from collect_facts_duplicate [OF assms True u]
      show ?thesis unfolding step seen(3) p(2) p(3) by simp
    next
      case new
      then have u: "vm_uuid v \<noteq> []" "vm_uuid v \<notin> seen_uuids (vm_collector st)"
        using p(2) by simp_all
      from collect_facts_first [OF assms True u p(1)]
      show ?thesis unfolding step new(3) p(2) by simp
    qed
  qed
qed

lemma collect_facts_run:
  assumes "seen_uuids self = {}" "duplicate_uuids self = Map.empty"
  shows "collect_facts (vm_skip_list self) vms (collect_vm_data self vms)"
proof (induction vms rule: rev_induct)
  case Nil
  show ?case using assms by (rule collect_facts_Nil)
next
  case (snoc v vms)
  then show ?case
    unfolding collect_vm_data_snoc by (rule collect_facts_step)
qed

lemma new_vm_collector_fresh:
  "seen_uuids (new_vm_collector sl) = {}"
  "duplicate_uuids (new_vm_collector sl) = Map.empty"
  "vm_skip_list (new_vm_collector sl) = sl"
  by (simp_all add: new_vm_collector_def)

lemma collect_facts_new:
  "collect_facts sl vms (collect_vm_data (new_vm_collector sl) vms)"
  using collect_facts_run [of "new_vm_collector sl" vms]
  by (simp add: new_vm_collector_fresh)

lemma rerun_keeps_all:
  assumes "\<And>v. v \<in> set K \<Longrightarrow> clears_first_three sl v"
    and "distinct (filter (\<lambda>u. u \<noteq> []) (map vm_uuid K))"
  shows "kept_vms (collect_vm_data (new_vm_collector sl) K) = K
       \<and> duplicate_uuids (vm_collector (collect_vm_data (new_vm_collector sl) K)) = Map.empty"
  using assms
proof (induction K rule: rev_induct)
  case Nil
  then show ?case by (simp add: collect_vm_data_Nil new_vm_collector_def)
next
  case (snoc v K)
  let ?st = "collect_vm_data (new_vm_collector sl) K"
  note f = collect_factsD [OF collect_facts_new [of sl K]]
  have cl: "clears_first_three sl v" and clK: "\<And>x. x \<in> set K \<Longrightarrow> clears_first_three sl x"
    using snoc.prems(1) by simp_all
  have dK: "distinct (filter (\<lambda>u. u \<noteq> []) (map vm_uuid K))"
    using snoc.prems(2) by simp
  have ih: "kept_vms ?st = K" "duplicate_uuids (vm_collector ?st) = Map.empty"
    using snoc.IH [OF clK dK] by simp_all
  have fresh: "vm_uuid v \<noteq> [] \<Longrightarrow> vm_uuid v \<notin> seen_uuids (vm_collector ?st)"
  proof -
    assume ne: "vm_uuid v \<noteq> []"
    then have "vm_uuid v \<notin> set (filter (\<lambda>u. u \<noteq> []) (map vm_uuid K))"
      using snoc.prems(2) by simp
    then have "vm_uuid v \<notin> vm_uuid ` set K" using ne by simp
    then show ?thesis unfolding f(2) by blast
  qed
  have "clears_first_three (vm_skip_list (vm_collector ?st)) v"
    using cl f(1) by simp
  then obtain props where p: "get_vm_properties v = Some props"
    "uuid_value props = vm_uuid v" "VM props = vm_name v"
    and step: "process_vm ?st v =
       (if fst (is_duplicate_uuid props (vm_collector ?st))
        then ?st\<lparr>vm_collector := snd (is_duplicate_uuid props (vm_collector ?st))\<rparr>
        else ?st\<lparr>vm_collector := snd (is_duplicate_uuid props (vm_collector ?st)),
                vm_info := vm_info ?st @ [props],
                kept_vms := kept_vms ?st @ [v]\<rparr>)"
    by (rule process_vm_checked)
  show ?case
  proof (cases props "vm_collector ?st" rule: is_duplicate_uuid_cases)
    case empty
    show ?thesis
      unfolding collect_vm_data_snoc step empty(2) using ih by simp
  next
    case seen
    then show ?thesis using fresh p(2) by simp
  next
    case new
    show ?thesis
      unfolding collect_vm_data_snoc step new(3) using ih by simp
  qed
qed

section \<open>The regular expression built from a pattern\<close>

lemma special_not_alnum: "c \<in> set re_special_chars \<Longrightarrow> \<not> ascii_alnum c"
  by (auto simp: re_special_chars_def ascii_alnum_def backslash_def)

lemma metachars_special: "c \<in> set re_metachars \<Longrightarrow> c \<in> set re_special_chars"
  by (auto simp: re_special_chars_def re_metachars_def)

lemma repeat_special: "c \<in> set ''*+?{'' \<Longrightarrow> c \<in> set re_special_chars"
  by (auto simp: re_special_chars_def)

lemma backslash_special: "backslash \<in> set re_special_chars"
  by (simp add: re_special_chars_def)

lemma star_special: "CHR ''*'' \<in> set re_special_chars"
  by (simp add: re_special_chars_def)

lemma dot_special: "CHR ''.'' \<in> set re_special_chars"
  by (simp add: re_special_chars_def)

lemma star_not_backslash: "CHR ''*'' \<noteq> backslash"
  by (simp add: backslash_def)

lemma re_escape_Nil: "re_escape [] = []"
  by (simp add: re_escape_def)

lemma re_escape_Cons:
  "re_escape (c # p) = (if c \<in> set re_special_chars then backslash # c # re_escape p else c # re_escape p)"
  by (simp add: re_escape_def)

lemma re_escape_no_star_head: "\<not> prefix [CHR ''*''] (re_escape p)"
  by (cases p) (auto simp: re_escape_Nil re_escape_Cons star_not_backslash star_special)

lemma wildcard_regex_Nil: "wildcard_regex [] = []"
  by (simp add: wildcard_regex_def str_replace_def re_escape_Nil)

lemma wildcard_regex_Cons:
  "wildcard_regex (c # p) =
     (if c = CHR ''*'' then ''.*'' @ wildcard_regex p
      else if c \<in> set re_special_chars then backslash # c # wildcard_regex p
      else c # wildcard_regex p)"
proof -
  have nb: "c \<noteq> backslash" if "c \<notin> set re_special_chars"
    using that backslash_special by auto
  have hd: "\<not> prefix [backslash, CHR ''*''] (backslash # re_escape p)"
    using re_escape_no_star_head [of p] by simp
  show ?thesis
    using nb hd
    by (auto simp: wildcard_regex_def str_replace_def re_escape_Cons star_special star_not_backslash)
qed

lemma wildcard_regex_no_repeat_head: "\<not> repeat_follows (wildcard_regex p)"
proof (cases p)
  case Nil
  then show ?thesis by (simp add: wildcard_regex_Nil repeat_follows_def)
next
  case (Cons c q)
  have "backslash \<notin> set ''*+?{''" by (simp add: backslash_def)
  moreover have "c \<notin> set ''*+?{''" if "c \<notin> set re_special_chars"
    using that repeat_special by blast
  ultimately show ?thesis
    using Cons by (auto simp: wildcard_regex_Cons repeat_follows_def)
qed

lemma sre_parse_wildcard_regex: "sre_parse (wildcard_regex p) = Some (pattern_items p)"
proof (induction p)
  case Nil
  then show ?case by (simp add: wildcard_regex_Nil pattern_items_def)
next
  case (Cons c p)
  have nr: "\<not> repeat_follows (wildcard_regex p)"
    by (rule wildcard_regex_no_repeat_head)
  have ih: "sre_parse (wildcard_regex p) = Some (pattern_items p)"
    by (rule Cons.IH)
  show ?case
  proof (cases "c = CHR ''*''")
    case True
    then show ?thesis
      using nr ih by (simp add: wildcard_regex_Cons pattern_items_def backslash_def)
  next
    case star: False
    show ?thesis
    proof (cases "c \<in> set re_special_chars")
      case True
      then have "\<not> ascii_alnum c" by (rule special_not_alnum)
      then show ?thesis
        using nr ih star True by (simp add: wildcard_regex_Cons pattern_items_def)
    next
      case False
      then have "c \<noteq> backslash" "c \<noteq> CHR ''.''" "c \<notin> set re_metachars"
        using backslash_special dot_special metachars_special by auto
      then show ?thesis
        using nr ih star False by (simp add: wildcard_regex_Cons pattern_items_def)
    qed
  qed
qed

section \<open>Regular-expression search and wildcard matching\<close>

lemma match_star:
  "match_here (Any_Star # r) s \<longleftrightarrow>
     (\<exists>g t. s = g @ t \<and> list_all not_line_feed g \<and> match_here r t)"
proof (induction s)
  case Nil
  then show ?case by simp
next
  case (Cons d s)
  show ?case
  proof
    assume "match_here (Any_Star # r) (d # s)"
    then consider "match_here r (d # s)" | "d \<noteq> line_feed" "match_here (Any_Star # r) s"
      by auto
    then show "\<exists>g t. d # s = g @ t \<and> list_all not_line_feed g \<and> match_here r t"
    proof cases
      case 1
      then have "d # s = [] @ (d # s) \<and> list_all not_line_feed [] \<and> match_here r (d # s)"
        by simp
      then show ?thesis by blast
    next
      case 2
      then obtain g t where "s = g @ t" "list_all not_line_feed g" "match_here r t"
        using Cons.IH by blast
      then have "d # s = (d # g) @ t \<and> list_all not_line_feed (d # g) \<and> match_here r t"
        using 2(1) by (simp add: not_line_feed_def)
      then show ?thesis by blast
    qed
  next
    assume "\<exists>g t. d # s = g @ t \<and> list_all not_line_feed g \<and> match_here r t"
    then obtain g t where gt: "d # s = g @ t" "list_all not_line_feed g" "match_here r t"
      by blast
    show "match_here (Any_Star # r) (d # s)"
    proof (cases g)
      case Nil
      then show ?thesis using gt by simp
    next
      case (Cons e g')
      then have "d = e" "s = g' @ t" "list_all not_line_feed g'" "d \<noteq> line_feed"
        using gt by (simp_all add: not_line_feed_def)
      then have "match_here (Any_Star # r) s"
        using Cons.IH gt(3) by blast
      then show ?thesis using \<open>d \<noteq> line_feed\<close> by simp
    qed
  qed
qed

lemma pattern_items_Nil: "pattern_items [] = []"
  by (simp add: pattern_items_def)

lemma pattern_items_Cons:
  "pattern_items (c # p) = (if c = CHR ''*'' then Any_Star else Literal c) # pattern_items p"
  by (simp add: pattern_items_def)

lemma wildcard_exact_star:
  "wildcard_exact spans (CHR ''*'' # p) m \<longleftrightarrow>
     (\<exists>g r. m = g @ r \<and> list_all spans g \<and> wildcard_exact spans p r)"
proof
  assume "wildcard_exact spans (CHR ''*'' # p) m"
  then obtain g where g: "prefix g m" "list_all spans g"
    "wildcard_exact spans p (drop (length g) m)"
    by (auto simp: list_ex_iff)
  from g(1) obtain r where "m = g @ r" by (auto simp: prefix_def)
  then show "\<exists>g r. m = g @ r \<and> list_all spans g \<and> wildcard_exact spans p r"
    using g by auto
next
  assume "\<exists>g r. m = g @ r \<and> list_all spans g \<and> wildcard_exact spans p r"
  then obtain g r where "m = g @ r" "list_all spans g" "wildcard_exact spans p r" by blast
  then have "prefix g m \<and> list_all spans g \<and> wildcard_exact spans p (drop (length g) m)"
    by simp
  then show "wildcard_exact spans (CHR ''*'' # p) m"
    by (auto simp: list_ex_iff)
qed

lemma wildcard_exact_literal:
  "c \<noteq> CHR ''*'' \<Longrightarrow>
   wildcard_exact spans (c # p) m \<longleftrightarrow> (\<exists>r. m = c # r \<and> wildcard_exact spans p r)"
  by (cases m) auto

lemma match_here_pattern_items:
  "match_here (pattern_items p) s \<longleftrightarrow>
     (\<exists>m t. s = m @ t \<and> wildcard_exact not_line_feed p m)"
proof (induction p arbitrary: s)
  case Nil
  then show ?case by (simp add: pattern_items_Nil)
next
  case (Cons c p)
  show ?case
  proof (cases "c = CHR ''*''")
    case True
    have pi: "pattern_items (c # p) = Any_Star # pattern_items p"
      using True by (simp add: pattern_items_Cons)
    have "match_here (pattern_items (c # p)) s \<longleftrightarrow>
          (\<exists>g t. s = g @ t \<and> list_all not_line_feed g \<and> match_here (pattern_items p) t)"
      unfolding pi by (rule match_star)
    also have "\<dots> \<longleftrightarrow>
          (\<exists>g t. s = g @ t \<and> list_all not_line_feed g \<and>
             (\<exists>m u. t = m @ u \<and> wildcard_exact not_line_feed p m))"
      by (simp only: Cons.IH)
    also have "\<dots> \<longleftrightarrow>
          (\<exists>M u. s = M @ u \<and>
             (\<exists>g m. M = g @ m \<and> list_all not_line_feed g \<and> wildcard_exact not_line_feed p m))"
    proof
      assume "\<exists>g t. s = g @ t \<and> list_all not_line_feed g \<and>
             (\<exists>m u. t = m @ u \<and> wildcard_exact not_line_feed p m)"
      then obtain g t m u where "s = g @ t" "list_all not_line_feed g" "t = m @ u"
        "wildcard_exact not_line_feed p m" by blast
      then have "s = (g @ m) @ u \<and>
         (g @ m = g @ m \<and> list_all not_line_feed g \<and> wildcard_exact not_line_feed p m)"
        by simp
      then show "\<exists>M u. s = M @ u \<and>
             (\<exists>g m. M = g @ m \<and> list_all not_line_feed g \<and> wildcard_exact not_line_feed p m)"
        by blast
    next
      assume "\<exists>M u. s = M @ u \<and>
             (\<exists>g m. M = g @ m \<and> list_all not_line_feed g \<and> wildcard_exact not_line_feed p m)"
      then obtain M u g m where "s = M @ u" "M = g @ m" "list_all not_line_feed g"
        "wildcard_exact not_line_feed p m" by blast
      then have "s = g @ (m @ u) \<and> list_all not_line_feed g \<and>
         (m @ u = m @ u \<and> wildcard_exact not_line_feed p m)"
        by simp
      then show "\<exists>g t. s = g @ t \<and> list_all not_line_feed g \<and>
             (\<exists>m u. t = m @ u \<and> wildcard_exact not_line_feed p m)"
        by blast
    qed
    also have "\<dots> \<longleftrightarrow> (\<exists>M u. s = M @ u \<and> wildcard_exact not_line_feed (c # p) M)"
      using True by (simp only: wildcard_exact_star)
    finally show ?thesis .
  next
    case False
    have "match_here (pattern_items (c # p)) s \<longleftrightarrow>
          (\<exists>t. s = c # t \<and> match_here (pattern_items p) t)"
      using False by (cases s) (auto simp: pattern_items_Cons)
    also have "\<dots> \<longleftrightarrow> (\<exists>t. s = c # t \<and> (\<exists>m u. t = m @ u \<and> wildcard_exact not_line_feed p m))"
      by (simp only: Cons.IH)
    also have "\<dots> \<longleftrightarrow> (\<exists>M u. s = M @ u \<and> (\<exists>m. M = c # m \<and> wildcard_exact not_line_feed p m))"
    proof
      assume "\<exists>t. s = c # t \<and> (\<exists>m u. t = m @ u \<and> wildcard_exact not_line_feed p m)"
      then obtain t m u where "s = c # t" "t = m @ u" "wildcard_exact not_line_feed p m"
        by blast
      then have "s = (c # m) @ u \<and> (c # m = c # m \<and> wildcard_exact not_line_feed p m)"
        by simp
      then show "\<exists>M u. s = M @ u \<and> (\<exists>m. M = c # m \<and> wildcard_exact not_line_feed p m)"
        by blast
    next
      assume "\<exists>M u. s = M @ u \<and> (\<exists>m. M = c # m \<and> wildcard_exact not_line_feed p m)"
      then obtain M u m where "s = M @ u" "M = c # m" "wildcard_exact not_line_feed p m"
        by blast
      then have "s = c # (m @ u) \<and> (m @ u = m @ u \<and> wildcard_exact not_line_feed p m)"
        by simp
      then show "\<exists>t. s = c # t \<and> (\<exists>m u. t = m @ u \<and> wildcard_exact not_line_feed p m)"
        by blast
    qed
    also have "\<dots> \<longleftrightarrow> (\<exists>M u. s = M @ u \<and> wildcard_exact not_line_feed (c # p) M)"
      unfolding wildcard_exact_literal [OF False] ..
    finally show ?thesis .
  qed
qed

lemma search_items_iff:
  "search_items r s \<longleftrightarrow> (\<exists>pre t. s = pre @ t \<and> match_here r t)"
proof (induction s)
  case Nil
  then show ?case by simp
next
  case (Cons d s)
  show ?case
  proof
    assume "search_items r (d # s)"
    then consider "match_here r (d # s)" | "search_items r s" by auto
    then show "\<exists>pre t. d # s = pre @ t \<and> match_here r t"
    proof cases
      case 1
      then have "d # s = [] @ (d # s) \<and> match_here r (d # s)" by simp
      then show ?thesis by blast
    next
      case 2
      then obtain pre t where "s = pre @ t" "match_here r t" using Cons.IH by blast
      then have "d # s = (d # pre) @ t \<and> match_here r t" by simp
      then show ?thesis by blast
    qed
  next
    assume "\<exists>pre t. d # s = pre @ t \<and> match_here r t"
    then obtain pre t where pt: "d # s = pre @ t" "match_here r t" by blast
    show "search_items r (d # s)"
    proof (cases pre)
      case Nil
      then have "match_here r (d # s)" using pt by simp
      then show ?thesis by simp
    next
      case (Cons e pre')
      then have "s = pre' @ t" using pt(1) by simp
      then have "search_items r s" using Cons.IH pt(2) by blast
      then show ?thesis by simp
    qed
  qed
qed

lemma search_pattern_items:
  "search_items (pattern_items p) name \<longleftrightarrow> wildcard_matches not_line_feed p name"
proof -
  have "search_items (pattern_items p) name \<longleftrightarrow>
        (\<exists>pre t. name = pre @ t \<and> (\<exists>m u. t = m @ u \<and> wildcard_exact not_line_feed p m))"
    by (simp only: search_items_iff match_here_pattern_items)
  also have "\<dots> \<longleftrightarrow> (\<exists>m. sublist m name \<and> wildcard_exact not_line_feed p m)"
  proof
    assume "\<exists>pre t. name = pre @ t \<and> (\<exists>m u. t = m @ u \<and> wildcard_exact not_line_feed p m)"
    then obtain pre t m u where "name = pre @ t" "t = m @ u" "wildcard_exact not_line_feed p m"
      by blast
    then have "name = pre @ m @ u" by simp
    then have "sublist m name" unfolding sublist_def by blast
    then show "\<exists>m. sublist m name \<and> wildcard_exact not_line_feed p m"
      using \<open>wildcard_exact not_line_feed p m\<close> by blast
  next
    assume "\<exists>m. sublist m name \<and> wildcard_exact not_line_feed p m"
    then obtain m where m: "sublist m name" "wildcard_exact not_line_feed p m" by blast
    then obtain pre u where "name = pre @ m @ u" unfolding sublist_def by blast
    then have "name = pre @ (m @ u) \<and> (m @ u = m @ u \<and> wildcard_exact not_line_feed p m)"
      using m(2) by simp
    then show "\<exists>pre t. name = pre @ t \<and> (\<exists>m u. t = m @ u \<and> wildcard_exact not_line_feed p m)"
      by blast
  qed
  also have "\<dots> \<longleftrightarrow> wildcard_matches not_line_feed p name"
    by (auto simp: wildcard_matches_def list_ex_iff)
  finally show ?thesis .
qed

lemma re_search_wildcard_regex:
  "re_search (wildcard_regex p) name = Inr (wildcard_matches not_line_feed p name)"
  by (simp add: re_search_def sre_parse_wildcard_regex search_pattern_items)

lemma has_special_iff:
  "list_ex (\<lambda>c. c \<in> set pattern) regex_special_characters \<longleftrightarrow>
     set pattern \<inter> set regex_special_characters \<noteq> {}"
  unfolding list_ex_iff by blast

lemma should_skip_vm_Cons:
  "should_skip_vm (p # sl) vm \<longleftrightarrow>
     pattern_matches not_line_feed p (vm_name vm) \<or> should_skip_vm sl vm"
proof (cases "set p \<inter> set regex_special_characters = {}")
  case True
  then have "\<not> list_ex (\<lambda>c. c \<in> set p) regex_special_characters"
    by (simp add: has_special_iff)
  then show ?thesis
    using True by (simp add: should_skip_vm_def pattern_matches_def)
next
  case False
  then have "list_ex (\<lambda>c. c \<in> set p) regex_special_characters"
    by (simp add: has_special_iff)
  moreover have "re_search (str_replace (re_escape p) [backslash, CHR ''*''] ''.*'') (vm_name vm) =
      Inr (wildcard_matches not_line_feed p (vm_name vm))"
    using re_search_wildcard_regex [of p "vm_name vm"] by (simp only: wildcard_regex_def)
  ultimately show ?thesis
    using False by (simp add: should_skip_vm_def pattern_matches_def)
qed

lemma should_skip_vm_Nil: "\<not> should_skip_vm [] vm"
  by (simp add: should_skip_vm_def)

lemma should_skip_vm_iff:
  "should_skip_vm sl vm \<longleftrightarrow> (\<exists>p\<in>set sl. pattern_matches not_line_feed p (vm_name vm))"
  by (induction sl) (simp_all add: should_skip_vm_Nil should_skip_vm_Cons)

section \<open>Claims about the VM processing loop\<close>

text \<open>
  C1. A run of the loop from a fresh collector keeps exactly the machines that clear the
  four checks: not skipped by a name pattern, in a running state (power state other than
  \<open>poweredOff\<close> and guest state other than \<open>notRunning\<close>), with a non-empty primary
  IP address, and not bearing the UUID of an earlier machine that reached the duplicate
  check; they are kept in input order and their rows are the exported rows. The ledger
  records only what reached the duplicate check: the seen-set is the non-empty UUIDs of
  the machines that clear the first three checks, and the list under a UUID is the names
  of those machines bearing it, without the first. A machine that fails one of the first
  three checks leaves the whole state, ledger included, as it was; a machine that clears
  them goes through the duplicate check, and its row is appended exactly when that check
  returns false.
\<close>

theorem filter_and_deduplicate_checks:
  "kept_vms (collect_vm_data (new_vm_collector sl) vms) =
     map ((!) vms) (filter (clears_all_four sl vms) [0..<length vms])
   \<and> vm_info (collect_vm_data (new_vm_collector sl) vms) =
     map (the \<circ> get_vm_properties) (kept_vms (collect_vm_data (new_vm_collector sl) vms))
   \<and> seen_uuids (vm_collector (collect_vm_data (new_vm_collector sl) vms)) =
     vm_uuid ` {vm \<in> set vms. clears_first_three sl vm} - {[]}
   \<and> (\<forall>u. duplicate_uuids (vm_collector (collect_vm_data (new_vm_collector sl) vms)) u =
         (if u \<noteq> [] \<and> 2 \<le> length (checked_names sl u vms)
          then Some (tl (checked_names sl u vms)) else None))
   \<and> (\<not> clears_first_three (vm_skip_list (vm_collector st)) vm \<longrightarrow> process_vm st vm = st)
   \<and> (clears_first_three (vm_skip_list (vm_collector st)) vm \<longrightarrow>
        (\<exists>props. get_vm_properties vm = Some props \<and>
           process_vm st vm =
             (if fst (is_duplicate_uuid props (vm_collector st))
              then st\<lparr>vm_collector := snd (is_duplicate_uuid props (vm_collector st))\<rparr>
              else st\<lparr>vm_collector := snd (is_duplicate_uuid props (vm_collector st)),
                      vm_info := vm_info st @ [props],
                      kept_vms := kept_vms st @ [vm]\<rparr>)))"
proof -
  note f = collect_factsD [OF collect_facts_new [of sl vms]]
  have checked: "\<exists>props. get_vm_properties vm = Some props \<and>
           process_vm st vm =
             (if fst (is_duplicate_uuid props (vm_collector st))
              then st\<lparr>vm_collector := snd (is_duplicate_uuid props (vm_collector st))\<rparr>
              else st\<lparr>vm_collector := snd (is_duplicate_uuid props (vm_collector st)),
                      vm_info := vm_info st @ [props],
                      kept_vms := kept_vms st @ [vm]\<rparr>)"
    if "clears_first_three (vm_skip_list (vm_collector st)) vm"
    using that by (rule process_vm_checked) blast
  show ?thesis
    using f(2) f(3) f(4) f(5) process_vm_dropped [of st vm] checked
    by (intro conjI allI impI)
qed

theorem filter_and_deduplicate_checks_witness:
  "kept_vms (collect_vm_data (new_vm_collector example_skip_list) example_inventory) =
     [example_vm ''web-01'' ''10.0.0.4'' ''u-1'', example_vm ''web-03'' ''10.0.0.8'' []]
   \<and> duplicate_uuids (vm_collector (collect_vm_data (new_vm_collector example_skip_list)
        example_inventory)) ''u-1'' = Some [''web-02'', ''web-04'']
   \<and> duplicate_uuids (vm_collector (collect_vm_data (new_vm_collector example_skip_list)
        example_inventory)) ''u-2'' = None
   \<and> process_vm \<lparr>vm_collector = new_vm_collector example_skip_list, vm_info = [], kept_vms = []\<rparr>
        (example_vm ''test-vm-03'' ''10.0.0.3'' ''u-1'')
      = \<lparr>vm_collector = new_vm_collector example_skip_list, vm_info = [], kept_vms = []\<rparr>
   \<and> kept_vms (process_vm
        \<lparr>vm_collector = new_vm_collector example_skip_list, vm_info = [], kept_vms = []\<rparr>
        (example_vm ''web-01'' ''10.0.0.4'' ''u-1'')) = [example_vm ''web-01'' ''10.0.0.4'' ''u-1'']"
proof -
  have c: "clears_first_three example_skip_list (example_vm ''web-01'' ''10.0.0.4'' ''u-1'')"
    by code_simp
  have p: "get_vm_properties (example_vm ''web-01'' ''10.0.0.4'' ''u-1'') =
      Some \<lparr>VM = ''web-01'', Powerstate = ''poweredOn'', Primary_IP_Address = ''10.0.0.4'',
            VM_UUID = Some ''u-1''\<rparr>"
    by code_simp
  have q: "\<not> fst (is_duplicate_uuid
      \<lparr>VM = ''web-01'', Powerstate = ''poweredOn'', Primary_IP_Address = ''10.0.0.4'',
        VM_UUID = Some ''u-1''\<rparr> (new_vm_collector example_skip_list))"
    by code_simp
  have k: "map ((!) example_inventory)
        (filter (clears_all_four example_skip_list example_inventory) [0..<length example_inventory])
      = [example_vm ''web-01'' ''10.0.0.4'' ''u-1'', example_vm ''web-03'' ''10.0.0.8'' []]"
    by code_simp
  have n1: "checked_names example_skip_list ''u-1'' example_inventory =
      [''web-01'', ''web-02'', ''web-04'']"
    by code_simp
  have n2: "checked_names example_skip_list ''u-2'' example_inventory = []"
    by code_simp
  have d: "\<not> clears_first_three example_skip_list (example_vm ''test-vm-03'' ''10.0.0.3'' ''u-1'')"
    by code_simp
  have sl: "vm_skip_list (new_vm_collector example_skip_list) = example_skip_list"
    by (simp add: new_vm_collector_def)
  show ?thesis
    using filter_and_deduplicate_checks [of example_skip_list example_inventory
        "\<lparr>vm_collector = new_vm_collector example_skip_list, vm_info = [], kept_vms = []\<rparr>"
        "example_vm ''test-vm-03'' ''10.0.0.3'' ''u-1''"]
      filter_and_deduplicate_checks [of example_skip_list example_inventory
        "\<lparr>vm_collector = new_vm_collector example_skip_list, vm_info = [], kept_vms = []\<rparr>"
        "example_vm ''web-01'' ''10.0.0.4'' ''u-1''"] k n1 n2 d sl c p q
    by auto
qed

text \<open>
  C5. Running the loop again, from a fresh collector with the same skip list, on the
  machines kept by a first run keeps the same machines in the same order, exports the same
  rows and records no duplicate.
\<close>

theorem filter_and_deduplicate_idempotent:
  "kept_vms (collect_vm_data (new_vm_collector sl)
       (kept_vms (collect_vm_data (new_vm_collector sl) vms))) =
     kept_vms (collect_vm_data (new_vm_collector sl) vms)
   \<and> vm_info (collect_vm_data (new_vm_collector sl)
       (kept_vms (collect_vm_data (new_vm_collector sl) vms))) =
     vm_info (collect_vm_data (new_vm_collector sl) vms)
   \<and> duplicate_uuids (vm_collector (collect_vm_data (new_vm_collector sl)
       (kept_vms (collect_vm_data (new_vm_collector sl) vms)))) = Map.empty"
proof -
  let ?K = "kept_vms (collect_vm_data (new_vm_collector sl) vms)"
  note f = collect_factsD [OF collect_facts_new [of sl vms]]
  note g = collect_factsD [OF collect_facts_new [of sl ?K]]
  have r: "kept_vms (collect_vm_data (new_vm_collector sl) ?K) = ?K
       \<and> duplicate_uuids (vm_collector (collect_vm_data (new_vm_collector sl) ?K)) = Map.empty"
    using f(6) f(7) by (rule rerun_keeps_all)
  then have k: "kept_vms (collect_vm_data (new_vm_collector sl) ?K) = ?K" by (rule conjunct1)
  have "vm_info (collect_vm_data (new_vm_collector sl) ?K) =
        map (the \<circ> get_vm_properties) ?K"
    using g(4) unfolding k .
  also have "\<dots> = vm_info (collect_vm_data (new_vm_collector sl) vms)"
    using f(4) by (rule sym)
  finally have i: "vm_info (collect_vm_data (new_vm_collector sl) ?K) =
        vm_info (collect_vm_data (new_vm_collector sl) vms)" .
  have d: "duplicate_uuids (vm_collector (collect_vm_data (new_vm_collector sl) ?K)) = Map.empty"
    using r by (rule conjunct2)
  show ?thesis
    using k i d by (intro conjI)
qed

theorem filter_and_deduplicate_idempotent_witness:
  "kept_vms (collect_vm_data (new_vm_collector example_skip_list) example_inventory) =
     [example_vm ''web-01'' ''10.0.0.4'' ''u-1'', example_vm ''web-03'' ''10.0.0.8'' []]
   \<and> kept_vms (collect_vm_data (new_vm_collector example_skip_list)
        [example_vm ''web-01'' ''10.0.0.4'' ''u-1'', example_vm ''web-03'' ''10.0.0.8'' []]) =
     [example_vm ''web-01'' ''10.0.0.4'' ''u-1'', example_vm ''web-03'' ''10.0.0.8'' []]"
proof -
  have k: "kept_vms (collect_vm_data (new_vm_collector example_skip_list) example_inventory) =
     [example_vm ''web-01'' ''10.0.0.4'' ''u-1'', example_vm ''web-03'' ''10.0.0.8'' []]"
    by code_simp
  show ?thesis
    using filter_and_deduplicate_idempotent [of example_skip_list example_inventory] k
    by simp
qed

section \<open>Claims about the sampling parameter selector\<close>

text \<open>
  C2. For every window of at least one minute the selector returns the first matching row
  of the five-row table, upper bounds inclusive, with floor division: up to 60 minutes
  \<open>(w * 60) div 20\<close> samples of the 20-second tier; above 60 and up to 1440 minutes
  \<open>w div 5\<close> samples of the 300-second tier; above 1440 and up to 10080 minutes
  \<open>w div 30\<close> samples of the 1800-second tier; above 10080 and up to 43200 minutes
  \<open>w div 120\<close> samples of the 7200-second tier; above 43200 minutes \<open>w div 1440\<close>
  samples of the 86400-second tier. A window of 60 minutes is in the 20-second tier and a
  window of 61 minutes in the 300-second tier.
\<close>

theorem sampling_plan_table:
  assumes "1 \<le> w"
  shows "(w \<le> 60 \<longrightarrow>
            determine_sampling_parameters w = ((w * 60) div 20, ''20-second real-time'', 20))
       \<and> (60 < w \<and> w \<le> 1440 \<longrightarrow>
            determine_sampling_parameters w = (w div 5, ''5-minute short-term'', 300))
       \<and> (1440 < w \<and> w \<le> 10080 \<longrightarrow>
            determine_sampling_parameters w = (w div 30, ''30-minute medium-term'', 1800))
       \<and> (10080 < w \<and> w \<le> 43200 \<longrightarrow>
            determine_sampling_parameters w = (w div 120, ''2-hour long-term'', 7200))
       \<and> (43200 < w \<longrightarrow>
            determine_sampling_parameters w = (w div 1440, ''1-day historical'', 86400))
       \<and> interval_id (determine_sampling_parameters 60) = 20
       \<and> interval_id (determine_sampling_parameters 61) = 300"
  by (simp add: determine_sampling_parameters_def interval_id_def)

theorem sampling_plan_table_witness:
  "determine_sampling_parameters 30 = (90, ''20-second real-time'', 20)
   \<and> determine_sampling_parameters 60 = (180, ''20-second real-time'', 20)
   \<and> determine_sampling_parameters 61 = (12, ''5-minute short-term'', 300)
   \<and> determine_sampling_parameters 240 = (48, ''5-minute short-term'', 300)
   \<and> determine_sampling_parameters 2880 = (96, ''30-minute medium-term'', 1800)
   \<and> determine_sampling_parameters 14400 = (120, ''2-hour long-term'', 7200)
   \<and> determine_sampling_parameters 50000 = (34, ''1-day historical'', 86400)"
  using sampling_plan_table [of 30] sampling_plan_table [of 60] sampling_plan_table [of 61]
    sampling_plan_table [of 240] sampling_plan_table [of 2880]
    sampling_plan_table [of 14400] sampling_plan_table [of 50000]
  by simp

text \<open>
  C6, as stated: every tier's range of window lengths is closed at its lower end and open
  at its upper end, so a window of exactly 60, 1440, 10080 or 43200 minutes belongs to the
  tier above that value. \<open>tier_closed_below\<close> is that reading. The selector compares
  with \<open>\<le>\<close>: at 60 minutes it picks the 20-second tier, not the 300-second one.
\<close>

theorem tier_boundary_counterexample:
  "interval_id (determine_sampling_parameters 60) = 20 \<and> tier_closed_below 60 = 300"
  by (simp add: determine_sampling_parameters_def interval_id_def tier_closed_below_def)

text \<open>
  C6, amended. For every window of at least one minute the selector picks exactly one of
  the five tiers, and each tier's range of window lengths is open at its lower end and
  closed at its upper end: at most 60; above 60 up to 1440; above 1440 up to 10080; above
  10080 up to 43200; above 43200. A window of exactly 60, 1440, 10080 or 43200 minutes
  belongs to the tier below that value.
\<close>

theorem tier_ranges_closed_above:
  assumes "1 \<le> w"
  shows "interval_id (determine_sampling_parameters w) \<in> {20, 300, 1800, 7200, 86400}
       \<and> (interval_id (determine_sampling_parameters w) = 20 \<longleftrightarrow> w \<le> 60)
       \<and> (interval_id (determine_sampling_parameters w) = 300 \<longleftrightarrow> 60 < w \<and> w \<le> 1440)
       \<and> (interval_id (determine_sampling_parameters w) = 1800 \<longleftrightarrow> 1440 < w \<and> w \<le> 10080)
       \<and> (interval_id (determine_sampling_parameters w) = 7200 \<longleftrightarrow> 10080 < w \<and> w \<le> 43200)
       \<and> (interval_id (determine_sampling_parameters w) = 86400 \<longleftrightarrow> 43200 < w)
       \<and> interval_id (determine_sampling_parameters 60) = 20
       \<and> interval_id (determine_sampling_parameters 1440) = 300
       \<and> interval_id (determine_sampling_parameters 10080) = 1800
       \<and> interval_id (determine_sampling_parameters 43200) = 7200"
  by (simp add: determine_sampling_parameters_def interval_id_def)

theorem tier_ranges_closed_above_witness:
  "(1::int) \<le> 1440
   \<and> interval_id (determine_sampling_parameters 1440) = 300
   \<and> interval_id (determine_sampling_parameters 1440) \<noteq> 1800
   \<and> interval_id (determine_sampling_parameters 1441) = 1800"
  using tier_ranges_closed_above [of 1440] tier_ranges_closed_above [of 1441]
  by simp

text \<open>
  C7. For every window of at least one minute the sample count is at least one: no tier's
  floor division yields zero or a negative number there.
\<close>

theorem sample_count_positive:
  assumes "1 \<le> w"
  shows "1 \<le> samples (determine_sampling_parameters w)"
proof -
  have "1 \<le> (w * 60) div 20"
    using assms pos_imp_zdiv_pos_iff [of 20 "w * 60"] by simp
  moreover have "1 \<le> w div 5" if "60 < w"
    using that pos_imp_zdiv_pos_iff [of 5 w] by simp
  moreover have "1 \<le> w div 30" if "1440 < w"
    using that pos_imp_zdiv_pos_iff [of 30 w] by simp
  moreover have "1 \<le> w div 120" if "10080 < w"
    using that pos_imp_zdiv_pos_iff [of 120 w] by simp
  moreover have "1 \<le> w div 1440" if "43200 < w"
    using that pos_imp_zdiv_pos_iff [of 1440 w] by simp
  ultimately show ?thesis
    by (simp add: determine_sampling_parameters_def samples_def)
qed

theorem sample_count_positive_witness:
  "(1::int) \<le> 1 \<and> 1 \<le> samples (determine_sampling_parameters 1)
   \<and> samples (determine_sampling_parameters 1) = 3"
  using sample_count_positive [of 1]
  by (simp add: determine_sampling_parameters_def samples_def)

section \<open>Claims about the duplicate ledger\<close>

text \<open>
  C3. A call of the duplicate check with an empty or absent UUID returns false and leaves
  the collector as it was; with a UUID already in the seen-set it returns true and appends
  the name to the list stored under that UUID (starting from the empty list when there is
  none); with a new UUID it returns false and adds the UUID to the seen-set. Hence in a
  run of calls against a fresh ledger, a call with a non-empty UUID is rejected exactly
  when an earlier call carried the same UUID, and the list logged under a UUID is the
  names of all calls carrying it except the first, however many there are.
\<close>

theorem register_and_check_duplicate:
  "(uuid_value p = [] \<longrightarrow> is_duplicate_uuid p self = (False, self))
   \<and> (uuid_value p \<noteq> [] \<and> uuid_value p \<in> seen_uuids self \<longrightarrow>
        is_duplicate_uuid p self =
          (True, self\<lparr>duplicate_uuids := (duplicate_uuids self)(uuid_value p \<mapsto>
             (case duplicate_uuids self (uuid_value p) of None \<Rightarrow> [] | Some names \<Rightarrow> names)
               @ [VM p])\<rparr>))
   \<and> (uuid_value p \<noteq> [] \<and> uuid_value p \<notin> seen_uuids self \<longrightarrow>
        is_duplicate_uuid p self =
          (False, self\<lparr>seen_uuids := insert (uuid_value p) (seen_uuids self)\<rparr>))
   \<and> length (fst (duplicate_checks (new_vm_collector skip_list) calls)) = length calls
   \<and> (\<forall>i<length calls.
        fst (duplicate_checks (new_vm_collector skip_list) calls) ! i =
          (uuid_value (calls ! i) \<noteq> [] \<and>
           (\<exists>j<i. uuid_value (calls ! j) = uuid_value (calls ! i))))
   \<and> (\<forall>u. duplicate_uuids (snd (duplicate_checks (new_vm_collector skip_list) calls)) u =
        (if u \<noteq> [] \<and> 2 \<le> length (names_with_uuid u calls)
         then Some (tl (names_with_uuid u calls)) else None))"
proof -
  have "run_facts (new_vm_collector skip_list) calls"
    by (rule run_facts_fresh) (simp_all add: new_vm_collector_def)
  then have r: "length (fst (duplicate_checks (new_vm_collector skip_list) calls)) = length calls
     \<and> seen_uuids (snd (duplicate_checks (new_vm_collector skip_list) calls)) =
         uuid_value ` set calls - {[]}
     \<and> (\<forall>i<length calls. fst (duplicate_checks (new_vm_collector skip_list) calls) ! i =
           (uuid_value (calls ! i) \<noteq> [] \<and> (\<exists>j<i. uuid_value (calls ! j) = uuid_value (calls ! i))))
     \<and> (\<forall>u. duplicate_uuids (snd (duplicate_checks (new_vm_collector skip_list) calls)) u =
           (if u \<noteq> [] \<and> 2 \<le> length (names_with_uuid u calls)
            then Some (tl (names_with_uuid u calls)) else None))"
    unfolding run_facts_def .
  have r1: "length (fst (duplicate_checks (new_vm_collector skip_list) calls)) = length calls"
    using r by (elim conjE)
  have r3: "\<forall>i<length calls. fst (duplicate_checks (new_vm_collector skip_list) calls) ! i =
           (uuid_value (calls ! i) \<noteq> [] \<and> (\<exists>j<i. uuid_value (calls ! j) = uuid_value (calls ! i)))"
    using r by (elim conjE)
  have r4: "\<forall>u. duplicate_uuids (snd (duplicate_checks (new_vm_collector skip_list) calls)) u =
           (if u \<noteq> [] \<and> 2 \<le> length (names_with_uuid u calls)
            then Some (tl (names_with_uuid u calls)) else None)"
    using r by (elim conjE)
  have a: "uuid_value p = [] \<longrightarrow> is_duplicate_uuid p self = (False, self)"
    using is_duplicate_uuid_empty [of p self] by (rule impI)
  have b: "uuid_value p \<noteq> [] \<and> uuid_value p \<in> seen_uuids self \<longrightarrow>
        is_duplicate_uuid p self =
          (True, self\<lparr>duplicate_uuids := (duplicate_uuids self)(uuid_value p \<mapsto>
             (case duplicate_uuids self (uuid_value p) of None \<Rightarrow> [] | Some names \<Rightarrow> names)
               @ [VM p])\<rparr>)"
    using is_duplicate_uuid_seen [of p self] by (intro impI) (elim conjE)
  have c: "uuid_value p \<noteq> [] \<and> uuid_value p \<notin> seen_uuids self \<longrightarrow>
        is_duplicate_uuid p self =
          (False, self\<lparr>seen_uuids := insert (uuid_value p) (seen_uuids self)\<rparr>)"
    using is_duplicate_uuid_new [of p self] by (intro impI) (elim conjE)
  show ?thesis
    using a b c r1 r3 r4 by (intro conjI)
qed

theorem register_and_check_duplicate_witness:
  "fst (duplicate_checks (new_vm_collector []) example_calls) = [False, True, False, True]
   \<and> names_with_uuid ''duplicate-uuid-test'' example_calls =
       [''vm-original'', ''vm-duplicate'', ''vm-again'']
   \<and> duplicate_uuids (snd (duplicate_checks (new_vm_collector []) example_calls))
       ''duplicate-uuid-test'' = Some [''vm-duplicate'', ''vm-again'']
   \<and> is_duplicate_uuid (example_calls ! 2) (new_vm_collector []) = (False, new_vm_collector [])"
proof -
  have n: "names_with_uuid ''duplicate-uuid-test'' example_calls =
       [''vm-original'', ''vm-duplicate'', ''vm-again'']"
    by code_simp
  have r: "fst (duplicate_checks (new_vm_collector []) example_calls) = [False, True, False, True]"
    by code_simp
  have u: "uuid_value (example_calls ! 2) = []"
    by code_simp
  show ?thesis
    using register_and_check_duplicate
      [of "example_calls ! 2" "new_vm_collector []" "[]" example_calls] n r u
    by simp
qed

text \<open>
  C10. The ledger invariant: every UUID with an entry in the duplicates map is in the
  seen-set, and no stored list is empty. A fresh collector satisfies it, every call of the
  duplicate check preserves it, and no call shrinks the seen-set or any stored list (the
  old list stays a prefix of the new one).
\<close>

theorem ledger_invariant_preserved:
  "ledger_invariant (new_vm_collector skip_list)
   \<and> (ledger_invariant self \<longrightarrow> ledger_invariant (snd (is_duplicate_uuid vm_properties self)))
   \<and> ledger_grows self (snd (is_duplicate_uuid vm_properties self))"
  using ledger_invariant_new ledger_invariant_step ledger_grows_step by blast

theorem ledger_invariant_preserved_witness:
  "ledger_invariant (new_vm_collector []\<lparr>seen_uuids := {''duplicate-uuid-test''}\<rparr>)
   \<and> ledger_invariant (snd (is_duplicate_uuid (example_calls ! 1)
        (new_vm_collector []\<lparr>seen_uuids := {''duplicate-uuid-test''}\<rparr>)))
   \<and> duplicate_uuids (snd (is_duplicate_uuid (example_calls ! 1)
        (new_vm_collector []\<lparr>seen_uuids := {''duplicate-uuid-test''}\<rparr>))) ''duplicate-uuid-test''
      = Some [''vm-duplicate'']"
proof -
  have i: "ledger_invariant (new_vm_collector []\<lparr>seen_uuids := {''duplicate-uuid-test''}\<rparr>)"
    by (simp add: ledger_invariant_def new_vm_collector_def)
  have d: "duplicate_uuids (snd (is_duplicate_uuid (example_calls ! 1)
        (new_vm_collector []\<lparr>seen_uuids := {''duplicate-uuid-test''}\<rparr>))) ''duplicate-uuid-test''
      = Some [''vm-duplicate'']"
    by code_simp
  show ?thesis
    using ledger_invariant_preserved [of "[]"
        "new_vm_collector []\<lparr>seen_uuids := {''duplicate-uuid-test''}\<rparr>" "example_calls ! 1"] i d
    by simp
qed

section \<open>Claims about the name-skip check\<close>

text \<open>
  C4, as stated: a wildcard pattern skips a name when some part of the name consists of
  the pattern's literal characters in order, with any sequence of characters whatsoever in
  place of each \<open>*\<close>. The pattern \<open>a*b\<close> then matches the three-character name
  \<open>a\<close>, line feed, \<open>b\<close>; the code does not skip that name, because the dot of the
  regular expression \<open>a.*b\<close> does not match a line feed.
\<close>

theorem should_skip_by_name_counterexample:
  "pattern_matches any_character ''a*b'' [CHR ''a'', CHR 0x0A, CHR ''b'']
   \<and> \<not> should_skip_vm [''a*b''] (example_vm [CHR ''a'', CHR 0x0A, CHR ''b''] ''10.0.0.1'' ''u-1'')"
  by code_simp

text \<open>
  C4, amended. The name-skip check returns true exactly when some pattern of the list
  matches the name, and never for the empty list. A pattern with none of the characters
  \<open>* ? [ ] ( ) { } | ^ $ +\<close> and backslash matches when it equals the name. Any other
  pattern matches when some contiguous part of the name consists of the pattern's
  characters other than \<open>*\<close>, taken literally and in order, with a possibly empty
  sequence of characters other than line feed in place of each \<open>*\<close>.
\<close>

theorem should_skip_by_name:
  "(should_skip_vm skip_list vm \<longleftrightarrow>
      (\<exists>p\<in>set skip_list. pattern_matches not_line_feed p (vm_name vm)))
   \<and> \<not> should_skip_vm [] vm"
  using should_skip_vm_iff [of skip_list vm] should_skip_vm_Nil [of vm]
  by (intro conjI)

theorem should_skip_by_name_witness:
  "should_skip_vm example_skip_list (example_vm ''test-vm-03'' ''10.0.0.3'' ''u-1'')
   \<and> pattern_matches not_line_feed ''test-*'' ''test-vm-03''
   \<and> \<not> should_skip_vm [''vm01''] (example_vm ''vm02'' ''10.0.0.3'' ''u-1'')
   \<and> should_skip_vm [''vm01''] (example_vm ''vm01'' ''10.0.0.3'' ''u-1'')"
proof -
  have a: "should_skip_vm example_skip_list (example_vm ''test-vm-03'' ''10.0.0.3'' ''u-1'')"
    by code_simp
  have b: "\<not> pattern_matches not_line_feed ''vm01'' ''test-vm-03''"
    by code_simp
  have c: "\<not> pattern_matches not_line_feed ''vm01'' ''vm02''"
    by code_simp
  have d: "pattern_matches not_line_feed ''vm01'' ''vm01''"
    by code_simp
  have n: "vm_name (example_vm n ip u) = n" for n ip u
    by (simp add: example_vm_def)
  show ?thesis
    using should_skip_by_name [of example_skip_list "example_vm ''test-vm-03'' ''10.0.0.3'' ''u-1''"]
      should_skip_by_name [of "[''vm01'']" "example_vm ''vm02'' ''10.0.0.3'' ''u-1''"]
      should_skip_by_name [of "[''vm01'']" "example_vm ''vm01'' ''10.0.0.3'' ''u-1''"]
      a b c d
    by (simp add: n example_skip_list_def)
qed

text \<open>
  C8. Whatever the regular-expression engine is, when it raises a matching error on a
  pattern that has a special character, the check returns a truth value all the same:
  true when the pattern with every \<open>*\<close> removed is a contiguous part of the name, and
  otherwise the result of the check on the remaining patterns.
\<close>

theorem matching_error_falls_back:
  assumes "list_ex (\<lambda>c. c \<in> set pattern) regex_special_characters"
    and "search (str_replace (re_escape pattern) [backslash, CHR ''*''] ''.*'') (vm_name vm) = Inl err"
  shows "should_skip_vm_with search (pattern # rest) vm \<longleftrightarrow>
           sublist (filter (\<lambda>c. c \<noteq> CHR ''*'') pattern) (vm_name vm)
           \<or> should_skip_vm_with search rest vm"
proof -
  have "replace_from ''*'' [] 0 s = filter (\<lambda>c. c \<noteq> CHR ''*'') s" for s
    by (induction s) simp_all
  then have "str_replace pattern ''*'' [] = filter (\<lambda>c. c \<noteq> CHR ''*'') pattern"
    by (simp add: str_replace_def)
  then show ?thesis
    using assms by (simp add: str_in_def)
qed

theorem matching_error_falls_back_witness:
  "should_skip_vm_with failing_search [''a*c'', ''zzz''] (example_vm ''xacx'' ''10.0.0.1'' ''u-1'')
   \<and> \<not> should_skip_vm_with failing_search [''a*c'', ''zzz''] (example_vm ''abc'' ''10.0.0.1'' ''u-1'')
   \<and> should_skip_vm_with failing_search [''a*c'', ''abc''] (example_vm ''abc'' ''10.0.0.1'' ''u-1'')"
proof -
  have s: "list_ex (\<lambda>c. c \<in> set ''a*c'') regex_special_characters"
    by code_simp
  have f: "failing_search p s = Inl Re_Error" for p s
    by (simp add: failing_search_def)
  have n: "vm_name (example_vm n ip u) = n" for n ip u
    by (simp add: example_vm_def)
  have z: "\<not> list_ex (\<lambda>c. c \<in> set ''zzz'') regex_special_characters"
    "\<not> list_ex (\<lambda>c. c \<in> set ''abc'') regex_special_characters"
    by code_simp+
  show ?thesis
    using matching_error_falls_back [where pattern = "''a*c''" and search = failing_search
        and err = Re_Error and vm = "example_vm ''xacx'' ''10.0.0.1'' ''u-1''"
        and rest = "[''zzz'']", OF s f]
      matching_error_falls_back [where pattern = "''a*c''" and search = failing_search
        and err = Re_Error and vm = "example_vm ''abc'' ''10.0.0.1'' ''u-1''"
        and rest = "[''zzz'']", OF s f]
      matching_error_falls_back [where pattern = "''a*c''" and search = failing_search
        and err = Re_Error and vm = "example_vm ''abc'' ''10.0.0.1'' ''u-1''"
        and rest = "[''abc'']", OF s f]
      z
    by (simp add: n sublist_code)
qed

text \<open>
  C9. For every pattern and name, the regular expression built from the pattern compiles
  (to one item per pattern character) and searching the name with it returns a truth
  value, never a matching error; so the substring fallback is never taken, and the
  name-skip check is decided by the regular-expression search and the equality test alone.
\<close>

theorem wildcard_regex_never_fails:
  "sre_parse (str_replace (re_escape pattern) [backslash, CHR ''*''] ''.*'') =
     Some (pattern_items pattern)
   \<and> re_search (str_replace (re_escape pattern) [backslash, CHR ''*''] ''.*'') name =
     Inr (search_items (pattern_items pattern) name)
   \<and> re_search (str_replace (re_escape pattern) [backslash, CHR ''*''] ''.*'') name \<noteq> Inl err
   \<and> (should_skip_vm skip_list vm \<longleftrightarrow>
        (\<exists>p\<in>set skip_list.
           if list_ex (\<lambda>c. c \<in> set p) regex_special_characters
           then re_search (str_replace (re_escape p) [backslash, CHR ''*''] ''.*'') (vm_name vm)
                  = Inr True
           else vm_name vm = p))"
proof -
  have p: "sre_parse (str_replace (re_escape q) [backslash, CHR ''*''] ''.*'') =
     Some (pattern_items q)" for q
    using sre_parse_wildcard_regex [of q] by (simp only: wildcard_regex_def)
  have s: "re_search (str_replace (re_escape q) [backslash, CHR ''*''] ''.*'') n =
     Inr (search_items (pattern_items q) n)" for q n
    by (simp add: re_search_def p)
  have "should_skip_vm_with re_search sl vm \<longleftrightarrow>
        (\<exists>p\<in>set sl.
           if list_ex (\<lambda>c. c \<in> set p) regex_special_characters
           then re_search (str_replace (re_escape p) [backslash, CHR ''*''] ''.*'') (vm_name vm)
                  = Inr True
           else vm_name vm = p)" for sl
    by (induction sl) (simp_all add: s)
  then show ?thesis
    using p [of pattern] s [of pattern name] by (simp add: should_skip_vm_def)
qed

theorem wildcard_regex_never_fails_witness:
  "str_replace (re_escape ''prod-(eu)*.bak'') [backslash, CHR ''*''] ''.*'' =
     ''prod'' @ [backslash] @ ''-'' @ [backslash] @ ''('' @ ''eu'' @ [backslash] @ '')'' @ ''.*''
       @ [backslash] @ ''.'' @ ''bak''
   \<and> re_search (str_replace (re_escape ''prod-(eu)*.bak'') [backslash, CHR ''*''] ''.*'')
        ''old-prod-(eu)-7.bak'' = Inr True"
proof -
  have a: "str_replace (re_escape ''prod-(eu)*.bak'') [backslash, CHR ''*''] ''.*'' =
     ''prod'' @ [backslash] @ ''-'' @ [backslash] @ ''('' @ ''eu'' @ [backslash] @ '')'' @ ''.*''
       @ [backslash] @ ''.'' @ ''bak''"
    by code_simp
  have b: "search_items (pattern_items ''prod-(eu)*.bak'') ''old-prod-(eu)-7.bak''"
    by code_simp
  have "re_search (str_replace (re_escape ''prod-(eu)*.bak'') [backslash, CHR ''*''] ''.*'')
        ''old-prod-(eu)-7.bak'' = Inr (search_items (pattern_items ''prod-(eu)*.bak'') ''old-prod-(eu)-7.bak'')"
    using wildcard_regex_never_fails
      [of "''prod-(eu)*.bak''" "''old-prod-(eu)-7.bak''" Re_Error "[]" "example_vm [] [] []"]
    by (elim conjE)
  then have c: "re_search (str_replace (re_escape ''prod-(eu)*.bak'') [backslash, CHR ''*''] ''.*'')
        ''old-prod-(eu)-7.bak'' = Inr True"
    using b by simp
  show ?thesis
    using a c by (intro conjI)
qed

end
